theory Spec2Isabelle
  imports
    Main
    "HOL-Library.AList"
    "HOL-Library.Char_ord"
    "HOL-Library.List_Lexorder"
    "HOL-Library.Product_Lexorder"
begin

section \<open>The backing store\<close>

text \<open>
  The four stores of the package sit on a DynamoDB client. An item is a finite map from
  attribute names to typed attribute values, as the SDK writes them
  (\<^verbatim>\<open>{ S: ... }\<close>, \<^verbatim>\<open>{ N: ... }\<close>, \<^verbatim>\<open>{ BOOL: ... }\<close>, \<^verbatim>\<open>{ B: ... }\<close>).
  A table is an association list from primary key to item; the event log and the message
  store both use the key (tenant, messageCid).

  A call of \<^verbatim>\<open>client.send\<close> may throw. Every operation below takes
  \<open>fail_at\<close>, the position (counted from 0) of the first backend call of that operation
  that throws, or \<open>None\<close> when the backend answers every call. An operation returns
  what the caller sees (\<open>Inl\<close> is a rejected promise), the table afterwards, and the lines
  it wrote with \<^verbatim>\<open>console.error\<close>.
\<close>

datatype attr = S string | N int | BOOL bool | B string

type_synonym item = "string \<rightharpoonup> attr"

type_synonym table = "((string \<times> string) \<times> item) list"

datatype error = BackendError | ValidationError | TypeError | SyntaxError

type_synonym 'a outcome = "(error + 'a) \<times> table \<times> error list"

definition key_of :: "item \<Rightarrow> (string \<times> string) option" where
  "key_of it =
     (case it ''tenant'' of
        Some (S t) \<Rightarrow> (case it ''messageCid'' of Some (S c) \<Rightarrow> Some (t, c) | _ \<Rightarrow> None)
      | _ \<Rightarrow> None)"

text \<open>PutItem replaces the item under the key the item itself carries; the key attributes
  are strings by the table's schema, and the backend refuses anything else.\<close>

definition put_item :: "item \<Rightarrow> table \<Rightarrow> error + table" where
  "put_item it tbl =
     (case key_of it of
        None \<Rightarrow> Inl ValidationError
      | Some k \<Rightarrow> Inr (AList.update k it tbl))"

text \<open>UpdateItem with \<^verbatim>\<open>SET #count = if_not_exists(#count, :start) + :incr\<close>,
  \<^verbatim>\<open>:start = 0\<close>, \<^verbatim>\<open>:incr = 1\<close> and \<^verbatim>\<open>ReturnValues: UPDATED_NEW\<close>: one
  atomic step of the backend that creates the item when it is missing and returns the new
  count. Adding to an attribute that is not a number is refused.\<close>

definition update_count :: "string \<times> string \<Rightarrow> table \<Rightarrow> error + (int \<times> table)" where
  "update_count k tbl =
     (let it = (case map_of tbl k of
                  None \<Rightarrow> [''tenant'' \<mapsto> S (fst k), ''messageCid'' \<mapsto> S (snd k)]
                | Some old \<Rightarrow> old)
      in case it ''count'' of
           None \<Rightarrow> Inr (0 + 1, AList.update k (it(''count'' \<mapsto> N (0 + 1))) tbl)
         | Some (N n) \<Rightarrow> Inr (n + 1, AList.update k (it(''count'' \<mapsto> N (n + 1))) tbl)
         | Some _ \<Rightarrow> Inl ValidationError)"

section \<open>The event log\<close>

text \<open>
  \<^verbatim>\<open>EventLogDynamoDB.append\<close>. The tags and the sanitised indexes come from the
  helpers \<^verbatim>\<open>extractTagsAndSanitizeIndexes\<close> and \<^verbatim>\<open>replaceReservedWords\<close> of
  \<^verbatim>\<open>utils/sanitize\<close>, which are not embedded here: the model takes their marshalled
  results \<open>tags\<close> and \<open>fixIndexes\<close> as arguments. The client handle is set by the
  constructor, so the guard \<^verbatim>\<open>if (!this.#client)\<close> never fires. The object spread lets them override
  \<^verbatim>\<open>tenant\<close> and \<^verbatim>\<open>messageCid\<close>; \<^verbatim>\<open>watermark\<close> is written last.
  The whole body is inside \<^verbatim>\<open>try { ... } catch (error) { console.error(error) }\<close>.
\<close>

definition counter_key :: "string \<Rightarrow> string \<times> string" where
  "counter_key tenant = (tenant @ ''_counter'', ''counter'')"

definition append_item :: "string \<Rightarrow> string \<Rightarrow> item \<Rightarrow> item \<Rightarrow> int \<Rightarrow> item" where
  "append_item tenant messageCid tags fixIndexes incrementedCounter =
     [''tenant'' \<mapsto> S tenant, ''messageCid'' \<mapsto> S messageCid] ++ tags ++ fixIndexes
       ++ [''watermark'' \<mapsto> N incrementedCounter]"

definition append_event ::
  "string \<Rightarrow> string \<Rightarrow> item \<Rightarrow> item \<Rightarrow> nat option \<Rightarrow> table \<Rightarrow> unit outcome" where
  "append_event tenant messageCid tags fixIndexes fail_at tbl =
     (if fail_at = Some 0 then (Inr (), tbl, [BackendError])
      else case update_count (counter_key tenant) tbl of
        Inl e \<Rightarrow> (Inr (), tbl, [e])
      | Inr (incrementedCounter, tbl1) \<Rightarrow>
          if fail_at = Some 1 then (Inr (), tbl1, [BackendError])
          else case put_item (append_item tenant messageCid tags fixIndexes incrementedCounter) tbl1 of
            Inl e \<Rightarrow> (Inr (), tbl1, [e])
          | Inr tbl2 \<Rightarrow> (Inr (), tbl2, []))"

text \<open>A history of appends, oldest first.\<close>

record append_call =
  ac_tenant :: string
  ac_cid :: string
  ac_tags :: item
  ac_indexes :: item
  ac_fail_at :: "nat option"

definition do_append :: "append_call \<Rightarrow> table \<Rightarrow> table" where
  "do_append c tbl =
     fst (snd (append_event (ac_tenant c) (ac_cid c) (ac_tags c) (ac_indexes c) (ac_fail_at c) tbl))"

definition run_appends :: "append_call list \<Rightarrow> table \<Rightarrow> table" where
  "run_appends calls tbl = foldl (\<lambda>t c. do_append c t) tbl calls"

text \<open>The watermark an event carries in the table, and the value of a tenant's counter.\<close>

definition watermark_of :: "table \<Rightarrow> string \<times> string \<Rightarrow> int option" where
  "watermark_of tbl k =
     (case map_of tbl k of
        None \<Rightarrow> None
      | Some it \<Rightarrow> (case it ''watermark'' of Some (N w) \<Rightarrow> Some w | _ \<Rightarrow> None))"

definition count_of :: "table \<Rightarrow> string \<Rightarrow> int" where
  "count_of tbl tenant =
     (case map_of tbl (counter_key tenant) of
        None \<Rightarrow> 0
      | Some it \<Rightarrow> (case it ''count'' of Some (N n) \<Rightarrow> n | _ \<Rightarrow> 0))"

text \<open>An append call that stores its event under (tenant, messageCid): the index
  attributes do not replace the key attributes, and the content id is not the reserved
  sort key of the counter records.\<close>

definition plain_call :: "append_call \<Rightarrow> bool" where
  "plain_call c \<longleftrightarrow>
     ac_cid c \<noteq> ''counter'' \<and>
     (ac_tags c ++ ac_indexes c) ''tenant'' = None \<and>
     (ac_tags c ++ ac_indexes c) ''messageCid'' = None"

definition increments :: "string \<Rightarrow> append_call list \<Rightarrow> nat" where
  "increments tenant calls =
     length (filter (\<lambda>c. ac_tenant c = tenant \<and> ac_fail_at c \<noteq> Some 0) calls)"

text \<open>What holds of every table that plain appends build from the empty one: an event's
  watermark never exceeds its tenant's counter, two events of one tenant never share a
  watermark, and a counter record carries a numeric count.\<close>

definition log_inv :: "table \<Rightarrow> bool" where
  "log_inv tbl \<longleftrightarrow>
     (\<forall>t c w. c \<noteq> ''counter'' \<longrightarrow> watermark_of tbl (t, c) = Some w \<longrightarrow> w \<le> count_of tbl t) \<and>
     (\<forall>t c c' w. c \<noteq> ''counter'' \<longrightarrow> c' \<noteq> ''counter'' \<longrightarrow>
        watermark_of tbl (t, c) = Some w \<longrightarrow> watermark_of tbl (t, c') = Some w \<longrightarrow> c = c') \<and>
     (\<forall>t it. map_of tbl (t, ''counter'') = Some it \<longrightarrow> (\<exists>n. it ''count'' = Some (N n)))"

text \<open>Two appends for one tenant: the first loses its write after the counter moved, the
  second goes through.\<close>

definition failed_write :: append_call where
  "failed_write = \<lparr>ac_tenant = ''alice'', ac_cid = ''c1'', ac_tags = Map.empty,
     ac_indexes = Map.empty, ac_fail_at = Some 1\<rparr>"

definition good_write :: append_call where
  "good_write = \<lparr>ac_tenant = ''alice'', ac_cid = ''c2'', ac_tags = Map.empty,
     ac_indexes = Map.empty, ac_fail_at = None\<rparr>"

section \<open>Filters\<close>

text \<open>
  A filter (\<^verbatim>\<open>Filter\<close> of the SDK) is an object from property names to filter
  values, kept here in the order \<^verbatim>\<open>for (const keyRaw in filter)\<close> visits it. A filter
  value is a scalar, a range object with optional \<^verbatim>\<open>gt\<close>, \<^verbatim>\<open>gte\<close>,
  \<^verbatim>\<open>lt\<close>, \<^verbatim>\<open>lte\<close>, or an array of scalars; \<^verbatim>\<open>typeof\<close> is
  \<^verbatim>\<open>'object'\<close> for the last two. Numbers are integers in this model.
\<close>

datatype val = VStr string | VNum int | VBool bool

datatype filter_value =
  Scalar val
  | Range "val option" "val option" "val option" "val option"
  | OneOf "val list"

type_synonym filter = "(string \<times> filter_value) list"

datatype cmp = GT | GTE | LT | LTE | EQ

text \<open>A condition \<^verbatim>\<open>key op placeholder\<close> of a filter expression.\<close>

type_synonym condition = "string \<times> cmp \<times> string"

fun truthy :: "val \<Rightarrow> bool" where
  "truthy (VStr s) = (s \<noteq> [])"
| "truthy (VNum n) = (n \<noteq> 0)"
| "truthy (VBool b) = b"

text \<open>\<^verbatim>\<open>toString()\<close> of an integer: its decimal digits, after a minus sign when it is
  negative.\<close>

definition digit :: "nat \<Rightarrow> char" where
  "digit d = ''0123456789'' ! d"

function decimal :: "nat \<Rightarrow> string" where
  "decimal n = (if 10 \<le> n then decimal (n div 10) else []) @ [digit (n mod 10)]"
  by pat_completeness auto
termination
  by (relation "measure id") auto

definition number_toString :: "int \<Rightarrow> string" where
  "number_toString n = (if 0 \<le> n then decimal (nat n) else CHR ''-'' # decimal (nat (- n)))"

fun val_toString :: "val \<Rightarrow> string" where
  "val_toString (VStr s) = s"
| "val_toString (VNum n) = number_toString n"
| "val_toString (VBool b) = (if b then ''true'' else ''false'')"

fun join :: "string \<Rightarrow> string list \<Rightarrow> string" where
  "join sep [] = []"
| "join sep [x] = x"
| "join sep (x # y # ys) = x @ sep @ join sep (y # ys)"

fun js_toString :: "filter_value \<Rightarrow> string" where
  "js_toString (Scalar v) = val_toString v"
| "js_toString (Range gt gte lt lte) = ''[object Object]''"
| "js_toString (OneOf vs) = join '','' (map val_toString vs)"

fun marshall_val :: "val \<Rightarrow> attr" where
  "marshall_val (VStr s) = S s"
| "marshall_val (VNum n) = N n"
| "marshall_val (VBool b) = BOOL b"

definition rename_key :: "string \<Rightarrow> string" where
  "rename_key keyRaw =
     (if keyRaw = ''schema'' then ''xschema'' else if keyRaw = ''method'' then ''xmethod'' else keyRaw)"

text \<open>\<^verbatim>\<open>.replace('.', '')\<close> removes the first dot only.\<close>

fun replace_dot :: "string \<Rightarrow> string" where
  "replace_dot [] = []"
| "replace_dot (c # cs) = (if c = CHR ''.'' then cs else c # replace_dot cs)"

text \<open>\<^verbatim>\<open>if (value['gt']) { conditions.push(...); expressionAttributeValues[...] = value['gt'] }\<close>:
  a bound that is absent or falsy adds nothing.\<close>

definition bound :: "string \<Rightarrow> cmp \<Rightarrow> string \<Rightarrow> val option \<Rightarrow> (condition \<times> val) list" where
  "bound key op placeholder b =
     (case b of
        None \<Rightarrow> []
      | Some v \<Rightarrow> if truthy v then [((key, op, placeholder), v)] else [])"

definition range_conditions ::
  "string \<Rightarrow> string \<Rightarrow> val option \<Rightarrow> val option \<Rightarrow> val option \<Rightarrow> val option \<Rightarrow> (condition \<times> val) list" where
  "range_conditions key x gt gte lt lte =
     bound key GT (x @ ''GT'') gt @ bound key GTE (x @ ''GTE'') gte @
     bound key LT (x @ ''LT'') lt @ bound key LTE (x @ ''LTE'') lte"

text \<open>The body of the inner loop of \<^verbatim>\<open>MessageStoreDynamoDB.query\<close> for one property
  of the filter at position \<open>index\<close>: the conditions pushed, each with the value bound to
  its placeholder.\<close>

definition message_conditions :: "nat \<Rightarrow> string \<times> filter_value \<Rightarrow> (condition \<times> val) list" where
  "message_conditions index kv =
     (let key = replace_dot (rename_key (fst kv));
          x = '':x'' @ key @ decimal index
      in case snd kv of
           Range gt gte lt lte \<Rightarrow> range_conditions key x gt gte lt lte
         | OneOf vs \<Rightarrow> []
         | Scalar v \<Rightarrow>
             [((key, EQ, x @ ''EQ''),
               (case v of VBool b \<Rightarrow> VStr (val_toString v) | _ \<Rightarrow> v))])"

text \<open>The same loop body in \<^verbatim>\<open>EventLogDynamoDB.queryEvents\<close>: no dot removal, no
  filter position in the placeholder, the value read as \<^verbatim>\<open>filter[key]\<close> under the
  renamed key, and the equality operand always \<^verbatim>\<open>filter[keyRaw].toString()\<close>.\<close>

definition event_conditions :: "filter \<Rightarrow> string \<times> filter_value \<Rightarrow> (condition \<times> val) list" where
  "event_conditions flt kv =
     (let key = rename_key (fst kv);
          x = '':x'' @ key
      in case map_of flt key of
           Some (Range gt gte lt lte) \<Rightarrow> range_conditions key x gt gte lt lte
         | Some (OneOf vs) \<Rightarrow> []
         | _ \<Rightarrow> [((key, EQ, x @ ''EQ''), VStr (js_toString (snd kv)))])"

text \<open>Assigning \<^verbatim>\<open>expressionAttributeValues[placeholder] = value\<close> in order: a later
  assignment to the same placeholder replaces the earlier one.\<close>

definition bind_values :: "(condition \<times> val) list \<Rightarrow> (string \<rightharpoonup> val) \<Rightarrow> (string \<rightharpoonup> val)" where
  "bind_values cs vals = foldl (\<lambda>m cv. m(snd (snd (fst cv)) \<mapsto> snd cv)) vals cs"

text \<open>The outer loops. The message store pushes a group only when it has a condition
  (\<^verbatim>\<open>if (conditions.length > 0)\<close>); the event log pushes every group.\<close>

definition message_step ::
  "condition list list \<times> (string \<rightharpoonup> val) \<Rightarrow> nat \<times> filter \<Rightarrow> condition list list \<times> (string \<rightharpoonup> val)" where
  "message_step acc nf =
     (let cs = concat (map (message_conditions (fst nf)) (snd nf))
      in (if length cs > 0 then fst acc @ [map fst cs] else fst acc, bind_values cs (snd acc)))"

definition message_translate :: "filter list \<Rightarrow> condition list list \<times> (string \<rightharpoonup> val)" where
  "message_translate filters = foldl message_step ([], Map.empty) (enumerate 0 filters)"

definition event_step ::
  "condition list list \<times> (string \<rightharpoonup> val) \<Rightarrow> filter \<Rightarrow> condition list list \<times> (string \<rightharpoonup> val)" where
  "event_step acc flt =
     (let cs = concat (map (event_conditions flt) flt)
      in (fst acc @ [map fst cs], bind_values cs (snd acc)))"

definition event_translate :: "filter list \<Rightarrow> condition list list \<times> (string \<rightharpoonup> val)" where
  "event_translate filters = foldl event_step ([], Map.empty) filters"

text \<open>The text of the expression: \<^verbatim>\<open>'(' + conditions.join(' AND ') + ')'\<close> per group,
  and \<^verbatim>\<open>filterDynamoDB.join(' OR ')\<close>.\<close>

fun cmp_text :: "cmp \<Rightarrow> string" where
  "cmp_text GT = '' > ''"
| "cmp_text GTE = '' >= ''"
| "cmp_text LT = '' < ''"
| "cmp_text LTE = '' <= ''"
| "cmp_text EQ = '' = ''"

definition condition_text :: "condition \<Rightarrow> string" where
  "condition_text c = fst c @ cmp_text (fst (snd c)) @ snd (snd c)"

definition group_text :: "condition list \<Rightarrow> string" where
  "group_text g = ''('' @ join '' AND '' (map condition_text g) @ '')''"

definition filterExp :: "condition list list \<Rightarrow> string" where
  "filterExp groups = join '' OR '' (map group_text groups)"

text \<open>\<^verbatim>\<open>if (filterExp) params.FilterExpression = filterExp\<close>: the empty string is falsy.\<close>

definition filter_param :: "condition list list \<Rightarrow> condition list list option" where
  "filter_param groups = (if filterExp groups \<noteq> [] then Some groups else None)"

section \<open>Queries against the backing store\<close>

text \<open>
  The Query operation of the store, as its documentation describes it. The key condition
  \<^verbatim>\<open>#tenant = :tenant\<close> selects a partition. The rows of the partition that carry
  the sort attribute of the index, with the type the index declares, are ordered by that
  attribute (strings by their bytes, numbers by value) and then by the table's own sort key;
  \<^verbatim>\<open>ScanIndexForward\<close> gives the direction and \<^verbatim>\<open>ExclusiveStartKey\<close> the
  position after which reading starts. \<^verbatim>\<open>Limit\<close> bounds the rows read, before the
  filter expression is applied to them. \<^verbatim>\<open>Items\<close> holds the rows that pass the
  filter, \<^verbatim>\<open>ScannedCount\<close> counts the rows read, and \<^verbatim>\<open>LastEvaluatedKey\<close> is
  present when reading stopped at the limit. A malformed request (an empty pair of
  parentheses in the expression, a limit below one, a start key without the key attributes)
  is refused.
\<close>

datatype key_type = KeyS | KeyN

type_synonym position = "(int \<times> string) \<times> string"

definition index_key :: "key_type \<Rightarrow> string \<Rightarrow> item \<Rightarrow> (int \<times> string) option" where
  "index_key ty name it =
     (case it name of
        Some (S s) \<Rightarrow> (if ty = KeyS then Some (0, s) else None)
      | Some (N n) \<Rightarrow> (if ty = KeyN then Some (n, []) else None)
      | _ \<Rightarrow> None)"

record query_input =
  IndexName :: string
  ScanIndexForward :: bool
  Limit :: "nat option"
  ExclusiveStartKey :: "item option"
  FilterExpression :: "condition list list option"
  ExpressionAttributeValues :: "string \<rightharpoonup> attr"

record query_output =
  Items :: "item list"
  ScannedCount :: nat
  LastEvaluatedKey :: "item option"

fun compare_attr :: "cmp \<Rightarrow> attr \<Rightarrow> attr \<Rightarrow> bool" where
  "compare_attr EQ a b = (a = b)"
| "compare_attr GT (S x) (S y) = (x > y)"
| "compare_attr GT (N x) (N y) = (x > y)"
| "compare_attr GTE (S x) (S y) = (x \<ge> y)"
| "compare_attr GTE (N x) (N y) = (x \<ge> y)"
| "compare_attr LT (S x) (S y) = (x < y)"
| "compare_attr LT (N x) (N y) = (x < y)"
| "compare_attr LTE (S x) (S y) = (x \<le> y)"
| "compare_attr LTE (N x) (N y) = (x \<le> y)"
| "compare_attr _ _ _ = False"

definition eval_condition :: "(string \<rightharpoonup> attr) \<Rightarrow> item \<Rightarrow> condition \<Rightarrow> bool" where
  "eval_condition vals it c =
     (case it (fst c) of
        None \<Rightarrow> False
      | Some a \<Rightarrow> (case vals (snd (snd c)) of None \<Rightarrow> False | Some b \<Rightarrow> compare_attr (fst (snd c)) a b))"

definition matches :: "(string \<rightharpoonup> attr) \<Rightarrow> condition list list option \<Rightarrow> item \<Rightarrow> bool" where
  "matches vals fe it =
     (case fe of
        None \<Rightarrow> True
      | Some groups \<Rightarrow> list_ex (list_all (eval_condition vals it)) groups)"

definition well_formed :: "condition list list option \<Rightarrow> bool" where
  "well_formed fe = (case fe of None \<Rightarrow> True | Some groups \<Rightarrow> list_all (\<lambda>g. g \<noteq> []) groups)"

definition position_of :: "key_type \<Rightarrow> string \<Rightarrow> item \<Rightarrow> position option" where
  "position_of ty name it =
     (case index_key ty name it of
        None \<Rightarrow> None
      | Some k \<Rightarrow> (case it ''messageCid'' of Some (S c) \<Rightarrow> Some (k, c) | _ \<Rightarrow> None))"

definition index_rows :: "key_type \<Rightarrow> string \<Rightarrow> string \<Rightarrow> table \<Rightarrow> (position \<times> item) list" where
  "index_rows ty name tenant tbl =
     sort_key fst
       (List.map_filter
          (\<lambda>row. if fst (fst row) = tenant
                  then map_option (\<lambda>k. ((k, snd (fst row)), snd row)) (index_key ty name (snd row))
                  else None)
          tbl)"

definition after_start :: "bool \<Rightarrow> position option \<Rightarrow> (position \<times> item) list \<Rightarrow> (position \<times> item) list" where
  "after_start forward start rows =
     (case start of
        None \<Rightarrow> rows
      | Some p \<Rightarrow> filter (\<lambda>r. if forward then p < fst r else fst r < p) rows)"

definition key_item :: "string \<Rightarrow> string \<Rightarrow> item \<Rightarrow> item" where
  "key_item name tenant it =
     (\<lambda>a. if a = ''tenant'' then Some (S tenant)
           else if a = ''messageCid'' \<or> a = name then it a else None)"

definition backend_query :: "key_type \<Rightarrow> string \<Rightarrow> query_input \<Rightarrow> table \<Rightarrow> error + query_output" where
  "backend_query ty name q tbl =
     (case ExpressionAttributeValues q '':tenant'' of
        Some (S tenant) \<Rightarrow>
          if \<not> well_formed (FilterExpression q) \<or> Limit q = Some 0
             \<or> (case ExclusiveStartKey q of None \<Rightarrow> False | Some k \<Rightarrow> position_of ty name k = None)
          then Inl ValidationError
          else
            (let rows = index_rows ty name tenant tbl;
                 directed = (if ScanIndexForward q then rows else rev rows);
                 remaining = after_start (ScanIndexForward q)
                               (case ExclusiveStartKey q of None \<Rightarrow> None | Some k \<Rightarrow> position_of ty name k)
                               directed;
                 scanned = (case Limit q of None \<Rightarrow> remaining | Some l \<Rightarrow> take l remaining)
             in Inr \<lparr>Items = filter (matches (ExpressionAttributeValues q) (FilterExpression q)) (map snd scanned),
                     ScannedCount = length scanned,
                     LastEvaluatedKey =
                       (if Limit q = Some (length scanned)
                        then Some (key_item name tenant (snd (last scanned))) else None)\<rparr>)
      | _ \<Rightarrow> Inl ValidationError)"

text \<open>The conditions that the message store's loop produces per filter of the list, each
  with its value, and what one of them says of an item.\<close>

definition message_groups :: "filter list \<Rightarrow> (condition \<times> val) list list" where
  "message_groups filters =
     map (\<lambda>nf. concat (map (message_conditions (fst nf)) (snd nf))) (enumerate 0 filters)"

definition holds :: "item \<Rightarrow> condition \<times> val \<Rightarrow> bool" where
  "holds it cv =
     (case it (fst (fst cv)) of
        None \<Rightarrow> False
      | Some a \<Rightarrow> compare_attr (fst (snd (fst cv))) a (marshall_val (snd cv)))"

type_synonym 'a answer = "(error + 'a) \<times> error list"

subsection \<open>Querying the event log\<close>

text \<open>
  \<^verbatim>\<open>EventLogDynamoDB.queryEvents\<close>. A cursor is the object
  \<^verbatim>\<open>{ messageCid: JSON.stringify(cursorValue), value: ... }\<close>; the model keeps
  \<open>cursorValue\<close> itself, \<^verbatim>\<open>JSON.parse\<close> giving back what
  \<^verbatim>\<open>JSON.stringify\<close> was given. \<open>Blank\<close> is the cursor
  \<^verbatim>\<open>{ messageCid: "", value: -1 }\<close> of the fallback return, whose text does not parse.
  The request carries no \<^verbatim>\<open>Limit\<close>.
\<close>

datatype cursor = Cursor item | Blank

definition event_cursor :: "item \<Rightarrow> item" where
  "event_cursor lastMessage =
     (\<lambda>a. if a = ''tenant'' \<or> a = ''messageCid'' \<or> a = ''watermark'' then lastMessage a else None)"

definition event_id :: "item \<Rightarrow> string" where
  "event_id it = (case it ''messageCid'' of Some (S c) \<Rightarrow> c | _ \<Rightarrow> [])"

definition event_params :: "string \<Rightarrow> filter list \<Rightarrow> item option \<Rightarrow> query_input" where
  "event_params tenant filters start =
     (let tr = event_translate filters
      in \<lparr>IndexName = ''watermark'', ScanIndexForward = True, Limit = None,
          ExclusiveStartKey = start,
          FilterExpression = filter_param (fst tr),
          ExpressionAttributeValues = map_option marshall_val \<circ> ((snd tr)('':tenant'' \<mapsto> VStr tenant))\<rparr>)"

definition queryEvents ::
  "string \<Rightarrow> filter list \<Rightarrow> cursor option \<Rightarrow> nat option \<Rightarrow> table \<Rightarrow> (string list \<times> cursor option) answer" where
  "queryEvents tenant filters cursor fail_at tbl =
     (case cursor of
        Some Blank \<Rightarrow> (Inr ([], Some Blank), [SyntaxError])
      | _ \<Rightarrow>
        if fail_at = Some 0 then (Inr ([], Some Blank), [BackendError])
        else case backend_query KeyN ''watermark''
                    (event_params tenant filters (case cursor of Some (Cursor k) \<Rightarrow> Some k | _ \<Rightarrow> None)) tbl of
          Inl e \<Rightarrow> (Inr ([], Some Blank), [e])
        | Inr data \<Rightarrow>
            (Inr (map event_id (Items data),
                  (case Items data of
                     [] \<Rightarrow> cursor
                   | _ \<Rightarrow> Some (Cursor (event_cursor (last (Items data)))))),
             []))"

definition getEvents :: "string \<Rightarrow> cursor option \<Rightarrow> nat option \<Rightarrow> table \<Rightarrow> (string list \<times> cursor option) answer" where
  "getEvents tenant cursor fail_at tbl = queryEvents tenant [] cursor fail_at tbl"

section \<open>The message store\<close>

subsection \<open>put\<close>

text \<open>
  \<^verbatim>\<open>MessageStoreDynamoDB.put\<close>, called without an abort signal. The content id and the
  encoded bytes come from the block encoder, the tags and indexes from the sanitising
  helpers; the model takes them as arguments, with \<open>encodedData\<close> the value that
  \<^verbatim>\<open>getEncodedData\<close> extracts.

  The \<^verbatim>\<open>.S\<close> of an attribute value that is not a string is \<^verbatim>\<open>undefined\<close>, which
  \<^verbatim>\<open>+\<close> prints as the text \<^verbatim>\<open>undefined\<close> next to a string; two of them add up to
  \<^verbatim>\<open>NaN\<close>, which is no string value and which the client cannot send.
\<close>

definition js_S :: "attr \<Rightarrow> string option" where
  "js_S a = (case a of S s \<Rightarrow> Some s | _ \<Rightarrow> None)"

fun js_plus :: "string option \<Rightarrow> string option \<Rightarrow> string option" where
  "js_plus (Some a) (Some b) = Some (a @ b)"
| "js_plus None (Some b) = Some (''undefined'' @ b)"
| "js_plus (Some a) None = Some (a @ ''undefined'')"
| "js_plus None None = None"

definition add_sort :: "string \<Rightarrow> item \<Rightarrow> item option" where
  "add_sort a Item =
     (case Item a of
        None \<Rightarrow> Some Item
      | Some v \<Rightarrow>
          (case js_plus (js_S v) (Option.bind (Item ''messageCid'') js_S) of
             None \<Rightarrow> None
           | Some s \<Rightarrow> Some (Item(a @ ''Sort'' \<mapsto> S s))))"

definition put_input :: "string \<Rightarrow> string \<Rightarrow> string \<Rightarrow> string option \<Rightarrow> item \<Rightarrow> item \<Rightarrow> item option" where
  "put_input tenant messageCid encodedMessageBytes encodedData tags fixIndexes =
     Option.bind
       (Option.bind
          (Option.bind
             (add_sort ''dateCreated''
                ([''tenant'' \<mapsto> S tenant, ''messageCid'' \<mapsto> S messageCid,
                  ''encodedMessageBytes'' \<mapsto> B encodedMessageBytes] ++ tags ++ fixIndexes))
             (add_sort ''datePublished''))
          (add_sort ''messageTimestamp''))
       (\<lambda>Item. Some (case encodedData of None \<Rightarrow> Item | Some d \<Rightarrow> Item(''encodedData'' \<mapsto> S d)))"

definition put ::
  "string \<Rightarrow> string \<Rightarrow> string \<Rightarrow> string option \<Rightarrow> item \<Rightarrow> item \<Rightarrow> nat option \<Rightarrow> table \<Rightarrow> unit outcome" where
  "put tenant messageCid encodedMessageBytes encodedData tags fixIndexes fail_at tbl =
     (case put_input tenant messageCid encodedMessageBytes encodedData tags fixIndexes of
        None \<Rightarrow> (Inr (), tbl, [ValidationError])
      | Some Item \<Rightarrow>
          if fail_at = Some 0 then (Inr (), tbl, [BackendError])
          else case put_item Item tbl of
            Inl e \<Rightarrow> (Inr (), tbl, [e])
          | Inr tbl' \<Rightarrow> (Inr (), tbl', []))"

subsection \<open>query\<close>

datatype SortDirection = Descending | Ascending

record MessageSort =
  dateCreated :: "SortDirection option"
  datePublished :: "SortDirection option"
  messageTimestamp :: "SortDirection option"

record Pagination =
  limit :: "nat option"
  cursor :: "item option"

definition extractSortProperties :: "MessageSort option \<Rightarrow> string \<times> SortDirection" where
  "extractSortProperties messageSort =
     (case Option.bind messageSort dateCreated of
        Some d \<Rightarrow> (''dateCreated'', d)
      | None \<Rightarrow>
     (case Option.bind messageSort datePublished of
        Some d \<Rightarrow> (''datePublished'', d)
      | None \<Rightarrow>
     (case Option.bind messageSort messageTimestamp of
        Some d \<Rightarrow> (''messageTimestamp'', d)
      | None \<Rightarrow> (''messageTimestamp'', Ascending))))"

text \<open>\<^verbatim>\<open>cursorInputSort\<close>: \<^verbatim>\<open>if (pagination?.limit)\<close> skips a limit of 0, and the
  limit sent is \<^verbatim>\<open>pagination.limit * filters.length + 1\<close>. The expression and its
  values are filled in by \<^verbatim>\<open>query\<close>.\<close>

definition cursorInputSort ::
  "string \<Rightarrow> Pagination option \<Rightarrow> string \<Rightarrow> SortDirection \<Rightarrow> filter list \<Rightarrow> query_input" where
  "cursorInputSort tenant pagination sortAttribute sortDirection filters =
     \<lparr>IndexName = sortAttribute,
      ScanIndexForward = (sortDirection = Ascending),
      Limit = (case Option.bind pagination limit of
                 None \<Rightarrow> None
               | Some l \<Rightarrow> if l = 0 then None else Some (l * length filters + 1)),
      ExclusiveStartKey = Option.bind pagination cursor,
      FilterExpression = None,
      ExpressionAttributeValues = [ '':tenant'' \<mapsto> S tenant ]\<rparr>"

definition message_cursor :: "string \<Rightarrow> item \<Rightarrow> item" where
  "message_cursor sortProperty lastMessage =
     (\<lambda>a. if a = ''tenant'' \<or> a = sortProperty @ ''Sort'' \<or> a = ''messageCid''
           then lastMessage a else None)"

text \<open>\<^verbatim>\<open>processPaginationResults\<close>. With a limit of 0 and a non-empty result the slice is
  empty and reading a property of \<^verbatim>\<open>results.at(-1)\<close> throws. Each result is then handed
  to the block decoder through \<^verbatim>\<open>r.encodedMessageBytes.B\<close>, which throws when the
  attribute is missing; the model returns the stored items in place of the decoded
  messages.\<close>

definition processPaginationResults ::
  "item list \<Rightarrow> string \<Rightarrow> nat option \<Rightarrow> error + (item list \<times> item option)" where
  "processPaginationResults results sortProperty lim =
     (let over = (case lim of None \<Rightarrow> False | Some l \<Rightarrow> length results > l);
          kept = (case lim of None \<Rightarrow> results | Some l \<Rightarrow> if over then take l results else results)
      in if over \<and> length kept = 0 then Inl TypeError
         else if list_ex (\<lambda>r. r ''encodedMessageBytes'' = None) kept then Inl TypeError
         else Inr (kept, if over then Some (message_cursor sortProperty (last kept)) else None))"

definition message_params ::
  "string \<Rightarrow> filter list \<Rightarrow> MessageSort option \<Rightarrow> Pagination option \<Rightarrow> query_input" where
  "message_params tenant filters messageSort pagination =
     (let sp = extractSortProperties messageSort;
          tr = message_translate filters
      in (cursorInputSort tenant pagination (fst sp) (snd sp) filters)
           \<lparr>ExpressionAttributeValues := map_option marshall_val \<circ> ((snd tr)('':tenant'' \<mapsto> VStr tenant)),
            FilterExpression := filter_param (fst tr)\<rparr>)"

text \<open>\<^verbatim>\<open>MessageStoreDynamoDB.query\<close>, called without an abort signal. Everything is
  inside \<^verbatim>\<open>try { ... } catch (err) { console.error(...); throw err }\<close>. After the
  answer arrives, the loop over the keys of \<^verbatim>\<open>LastEvaluatedKey\<close> reads
  \<^verbatim>\<open>data.Items[data.ScannedCount - 1].S\<close>: that throws when the filter removed a row,
  and otherwise compares two distinct objects with \<^verbatim>\<open>!==\<close>, which leaves the data as
  they are.\<close>

definition query ::
  "string \<Rightarrow> filter list \<Rightarrow> MessageSort option \<Rightarrow> Pagination option \<Rightarrow> nat option \<Rightarrow> table
     \<Rightarrow> (item list \<times> item option) answer" where
  "query tenant filters messageSort pagination fail_at tbl =
     (let sortProperty = fst (extractSortProperties messageSort)
      in if fail_at = Some 0 then (Inl BackendError, [BackendError])
         else case backend_query KeyS (sortProperty @ ''Sort'')
                     (message_params tenant filters messageSort pagination) tbl of
           Inl e \<Rightarrow> (Inl e, [e])
         | Inr data \<Rightarrow>
             if ScannedCount data > 0 \<and> \<not> Option.is_none (LastEvaluatedKey data)
                \<and> length (Items data) < ScannedCount data
             then (Inl TypeError, [TypeError])
             else case processPaginationResults (Items data) sortProperty
                         (Option.bind pagination limit) of
               Inl e \<Rightarrow> (Inl e, [e])
             | Inr r \<Rightarrow> (Inr r, []))"

section \<open>Sample data\<close>

text \<open>An event log of tenant alice with two events, one per protocol, and the filter
  list \<^verbatim>\<open>[{ protocol: 'p1' }, { protocol: 'p2' }]\<close>.\<close>

definition protocol_event :: "string \<Rightarrow> string \<Rightarrow> append_call" where
  "protocol_event cid p = \<lparr>ac_tenant = ''alice'', ac_cid = cid, ac_tags = Map.empty,
     ac_indexes = [''protocol'' \<mapsto> S p], ac_fail_at = None\<rparr>"

definition two_events :: table where
  "two_events = run_appends [protocol_event ''e1'' ''p1'', protocol_event ''e2'' ''p2''] []"

definition either_protocol :: "filter list" where
  "either_protocol = [[(''protocol'', Scalar (VStr ''p1''))], [(''protocol'', Scalar (VStr ''p2''))]]"

definition event_ids :: "(string list \<times> cursor option) answer \<Rightarrow> string list" where
  "event_ids r = (case fst r of Inl e \<Rightarrow> [] | Inr p \<Rightarrow> fst p)"

text \<open>Messages of tenant alice with a creation date and a flag, stored through
  \<^verbatim>\<open>put\<close>.\<close>

definition stored :: "string \<Rightarrow> string \<Rightarrow> string \<Rightarrow> table \<Rightarrow> table" where
  "stored cid date flag tbl =
     fst (snd (put ''alice'' cid ''bytes'' None Map.empty
                 [''dateCreated'' \<mapsto> S date, ''flag'' \<mapsto> S flag] None tbl))"

definition three_messages :: table where
  "three_messages =
     stored ''m3'' ''2024-01-03'' ''yes''
       (stored ''m2'' ''2024-01-02'' ''no'' (stored ''m1'' ''2024-01-01'' ''yes'' []))"

definition by_dateCreated :: "MessageSort option" where
  "by_dateCreated = Some \<lparr>dateCreated = Some Ascending, datePublished = None, messageTimestamp = None\<rparr>"

definition page :: "nat \<Rightarrow> item option \<Rightarrow> Pagination option" where
  "page l c = Some \<lparr>limit = Some l, cursor = c\<rparr>"

definition flagged :: "filter list" where
  "flagged = [[(''flag'', Scalar (VStr ''yes''))]]"

definition either_flag :: "filter list" where
  "either_flag = [[(''flag'', Scalar (VStr ''yes''))], [(''flag'', Scalar (VStr ''no''))]]"

definition any_flag :: "filter list" where
  "any_flag = [[(''flag'', Range None (Some (VStr ''a'')) None None)]]"

text \<open>The content ids of a page and of its cursor.\<close>

definition cids :: "(item list \<times> item option) answer \<Rightarrow> error + (string list \<times> string option)" where
  "cids r = map_sum id (\<lambda>p. (map event_id (fst p), map_option event_id (snd p))) (fst r)"

section \<open>Histories of puts\<close>

record put_call =
  pc_tenant :: string
  pc_cid :: string
  pc_bytes :: string
  pc_encodedData :: "string option"
  pc_tags :: item
  pc_indexes :: item
  pc_fail_at :: "nat option"

definition do_put :: "put_call \<Rightarrow> table \<Rightarrow> table" where
  "do_put c tbl =
     fst (snd (put (pc_tenant c) (pc_cid c) (pc_bytes c) (pc_encodedData c) (pc_tags c)
                 (pc_indexes c) (pc_fail_at c) tbl))"

definition run_puts :: "put_call list \<Rightarrow> table \<Rightarrow> table" where
  "run_puts calls tbl = foldl (\<lambda>t c. do_put c t) tbl calls"

text \<open>A put whose index attributes leave the key attributes alone.\<close>

definition plain_put :: "put_call \<Rightarrow> bool" where
  "plain_put c \<longleftrightarrow>
     (pc_tags c ++ pc_indexes c) ''tenant'' = None \<and>
     (pc_tags c ++ pc_indexes c) ''messageCid'' = None"

definition sort_names :: "string set" where
  "sort_names = {''dateCreated'', ''datePublished'', ''messageTimestamp''}"

text \<open>The text that \<^verbatim>\<open>+\<close> makes of the \<^verbatim>\<open>.S\<close> of an attribute value.\<close>

definition shown :: "attr \<Rightarrow> string" where
  "shown v = (case v of S s \<Rightarrow> s | _ \<Rightarrow> ''undefined'')"

definition with_sort :: "string \<Rightarrow> string \<Rightarrow> item \<Rightarrow> item" where
  "with_sort c a Item =
     (case Item a of None \<Rightarrow> Item | Some v \<Rightarrow> Item(a @ ''Sort'' \<mapsto> S (shown v @ c)))"

text \<open>The item that a plain put sends.\<close>

definition stored_item :: "string \<Rightarrow> string \<Rightarrow> string \<Rightarrow> string option \<Rightarrow> item \<Rightarrow> item" where
  "stored_item t c bytes ed ti =
     (let Item = with_sort c ''messageTimestamp'' (with_sort c ''datePublished'' (with_sort c ''dateCreated''
                   ([''tenant'' \<mapsto> S t, ''messageCid'' \<mapsto> S c, ''encodedMessageBytes'' \<mapsto> B bytes] ++ ti)))
      in case ed of None \<Rightarrow> Item | Some d \<Rightarrow> Item(''encodedData'' \<mapsto> S d))"

text \<open>What holds of every table that plain puts build from the empty one.\<close>

definition msg_inv :: "table \<Rightarrow> bool" where
  "msg_inv tbl \<longleftrightarrow>
     distinct (map fst tbl) \<and>
     (\<forall>row \<in> set tbl. snd row ''messageCid'' = Some (S (snd (fst row))) \<and>
        (\<forall>a \<in> sort_names. \<forall>v. snd row a = Some v \<longrightarrow>
           snd row (a @ ''Sort'') = Some (S (shown v @ snd (fst row)))))"

text \<open>The spec's scenario: two messages created at the same date, stored with the content
  ids \<^verbatim>\<open>bbb\<close> and then \<^verbatim>\<open>aaa\<close>.\<close>

definition dated :: "string \<Rightarrow> string \<Rightarrow> put_call" where
  "dated cid date = \<lparr>pc_tenant = ''alice'', pc_cid = cid, pc_bytes = ''bytes'',
     pc_encodedData = None, pc_tags = Map.empty, pc_indexes = [''dateCreated'' \<mapsto> S date],
     pc_fail_at = None\<rparr>"

text \<open>Two stored items with the same value of the attribute \<open>a\<close> stand in the order of
  their content ids.\<close>

definition tie_break :: "string \<Rightarrow> item \<Rightarrow> item \<Rightarrow> bool" where
  "tie_break a it1 it2 \<longleftrightarrow>
     (\<forall>v. it1 a = Some v \<and> it2 a = Some v \<longrightarrow> event_id it1 < event_id it2)"

text \<open>A message whose \<^verbatim>\<open>dateCreated\<close> index is the number 5, and the attribute an item
  of the table carries under a name.\<close>

definition numeric_date :: put_call where
  "numeric_date = \<lparr>pc_tenant = ''alice'', pc_cid = ''m1'', pc_bytes = ''bytes'',
     pc_encodedData = None, pc_tags = Map.empty, pc_indexes = [''dateCreated'' \<mapsto> N 5],
     pc_fail_at = None\<rparr>"

definition attr_at :: "table \<Rightarrow> string \<times> string \<Rightarrow> string \<Rightarrow> attr option" where
  "attr_at tbl k a = (case map_of tbl k of None \<Rightarrow> None | Some it \<Rightarrow> it a)"

section \<open>The resumable task store\<close>

text \<open>
  The table \<^verbatim>\<open>resumableTasks\<close> is keyed by \<^verbatim>\<open>taskid\<close>; the index
  \<^verbatim>\<open>timeout\<close> has the fixed partition \<^verbatim>\<open>tenantid = 'default'\<close> and the numeric
  sort key \<^verbatim>\<open>timeout\<close>. The task id is the content id of the task, computed outside;
  the payload is kept as its JSON text; \<open>now\<close> is the value of \<^verbatim>\<open>Date.now()\<close>.
\<close>

type_synonym task_table = "(string \<times> item) list"

type_synonym 'a task_outcome = "(error + 'a) \<times> task_table \<times> error list"

record ManagedResumableTask =
  task_id :: string
  task_payload :: string
  retryCount :: int
  timeout :: int

definition taskTimeoutInSeconds :: int where
  "taskTimeoutInSeconds = 60"

definition register ::
  "string \<Rightarrow> string \<Rightarrow> int \<Rightarrow> int \<Rightarrow> nat option \<Rightarrow> task_table \<Rightarrow> ManagedResumableTask task_outcome" where
  "register task taskid timeoutInSeconds now fail_at tbl =
     (if fail_at = Some 0 then (Inl BackendError, tbl, [])
      else (Inr \<lparr>task_id = taskid, task_payload = task, retryCount = 0,
                 timeout = now + timeoutInSeconds * 1000\<rparr>,
            AList.update taskid
              [''taskid'' \<mapsto> S taskid, ''tenantid'' \<mapsto> S ''default'',
               ''timeout'' \<mapsto> N (now + timeoutInSeconds * 1000), ''task'' \<mapsto> S task,
               ''retryCount'' \<mapsto> S (number_toString 0)] tbl,
            []))"

text \<open>The index query of \<^verbatim>\<open>grab\<close>: key condition
  \<^verbatim>\<open>#tenantid = :tenantid AND #timeout <= :timeout\<close>, ascending, \<^verbatim>\<open>Limit: count\<close>,
  no filter expression.\<close>

definition timeout_key :: "item \<Rightarrow> int option" where
  "timeout_key it =
     (case it ''tenantid'' of
        Some (S t) \<Rightarrow> (if t = ''default'' then (case it ''timeout'' of Some (N n) \<Rightarrow> Some n | _ \<Rightarrow> None) else None)
      | _ \<Rightarrow> None)"

definition expired_rows :: "int \<Rightarrow> task_table \<Rightarrow> (int \<times> item) list" where
  "expired_rows now tbl =
     filter (\<lambda>r. fst r \<le> now)
       (sort_key fst
          (List.map_filter (\<lambda>row. map_option (\<lambda>n. (n, snd row)) (timeout_key (snd row))) tbl))"

definition delete_task :: "string \<Rightarrow> nat option \<Rightarrow> task_table \<Rightarrow> unit task_outcome" where
  "delete_task taskId fail_at tbl =
     (if fail_at = Some 0 then (Inl BackendError, tbl, [])
      else (Inr (), AList.delete taskId tbl, []))"

definition regrabbed :: "int \<Rightarrow> item \<Rightarrow> item" where
  "regrabbed newTimeout it =
     (\<lambda>a. if a = ''tenantid'' then Some (S ''default'')
           else if a = ''timeout'' then Some (N newTimeout)
           else if a = ''taskid'' \<or> a = ''task'' \<or> a = ''retryCount'' then it a
           else None)"

text \<open>The loop of \<^verbatim>\<open>grab\<close> over the rows found: a delete and a put per row, counted
  as backend calls from \<open>n\<close> on. The result is the error that ended the loop, if any,
  and the table.\<close>

fun regrab :: "nat option \<Rightarrow> nat \<Rightarrow> int \<Rightarrow> item list \<Rightarrow> task_table \<Rightarrow> error option \<times> task_table" where
  "regrab fail_at n newTimeout [] tbl = (None, tbl)"
| "regrab fail_at n newTimeout (it # rest) tbl =
     (case it ''taskid'' of
        None \<Rightarrow> (Some TypeError, tbl)
      | Some (S taskid) \<Rightarrow>
          if fail_at = Some n then (Some BackendError, tbl)
          else if fail_at = Some (n + 1) then (Some BackendError, AList.delete taskid tbl)
          else regrab fail_at (n + 2) newTimeout rest
                 (AList.update taskid (regrabbed newTimeout it) (AList.delete taskid tbl))
      | Some _ \<Rightarrow> regrab fail_at n newTimeout rest tbl)"

definition parse_N :: "attr \<Rightarrow> int" where
  "parse_N a = (case a of N n \<Rightarrow> n | _ \<Rightarrow> 0)"

definition returned_task :: "int \<Rightarrow> item \<Rightarrow> error + ManagedResumableTask" where
  "returned_task newTimeout it =
     (case it ''taskid'' of None \<Rightarrow> Inl TypeError | Some i \<Rightarrow>
     (case it ''task'' of None \<Rightarrow> Inl TypeError | Some p \<Rightarrow>
     (case it ''retryCount'' of None \<Rightarrow> Inl TypeError | Some r \<Rightarrow>
        Inr \<lparr>task_id = (case js_S i of None \<Rightarrow> [] | Some s \<Rightarrow> s),
             task_payload = (case js_S p of None \<Rightarrow> ''{}'' | Some s \<Rightarrow> s),
             retryCount = parse_N r,
             timeout = newTimeout\<rparr>)))"

fun collect :: "(error + 'a) list \<Rightarrow> error + 'a list" where
  "collect [] = Inr []"
| "collect (Inl e # rs) = Inl e"
| "collect (Inr x # rs) = (case collect rs of Inl e \<Rightarrow> Inl e | Inr xs \<Rightarrow> Inr (x # xs))"

definition grab :: "nat \<Rightarrow> int \<Rightarrow> nat option \<Rightarrow> task_table \<Rightarrow> ManagedResumableTask list task_outcome" where
  "grab count now fail_at tbl =
     (let newTimeout = now + taskTimeoutInSeconds * 1000
      in if fail_at = Some 0 then (Inr [], tbl, [BackendError])
         else if count = 0 then (Inr [], tbl, [ValidationError])
         else
           (let found = map snd (take count (expired_rows now tbl))
            in case regrab fail_at 1 newTimeout found tbl of
                 (Some e, tbl') \<Rightarrow> (Inr [], tbl', [e])
               | (None, tbl') \<Rightarrow>
                   (case collect (map (returned_task newTimeout) found) of
                      Inl e \<Rightarrow> (Inr [], tbl', [e])
                    | Inr tasks \<Rightarrow> (Inr tasks, tbl', []))))"

definition read :: "string \<Rightarrow> nat option \<Rightarrow> task_table \<Rightarrow> ManagedResumableTask option task_outcome" where
  "read taskId fail_at tbl =
     (if fail_at = Some 0 then (Inl BackendError, tbl, [])
      else case map_of tbl taskId of
        None \<Rightarrow> (Inr None, tbl, [])
      | Some it \<Rightarrow>
         (case it ''taskid'' of None \<Rightarrow> (Inl TypeError, tbl, []) | Some i \<Rightarrow>
         (case it ''task'' of None \<Rightarrow> (Inl TypeError, tbl, []) | Some p \<Rightarrow>
         (case it ''timeout'' of None \<Rightarrow> (Inl TypeError, tbl, []) | Some t \<Rightarrow>
         (case it ''retryCount'' of None \<Rightarrow> (Inl TypeError, tbl, []) | Some r \<Rightarrow>
            (Inr (Some \<lparr>task_id = (case js_S i of None \<Rightarrow> [] | Some s \<Rightarrow> s),
                        task_payload = (case js_S p of None \<Rightarrow> [] | Some s \<Rightarrow> s),
                        retryCount = parse_N r,
                        timeout = parse_N t\<rparr>), tbl, []))))))"

definition extend :: "string \<Rightarrow> int \<Rightarrow> int \<Rightarrow> nat option \<Rightarrow> task_table \<Rightarrow> unit task_outcome" where
  "extend taskId timeoutInSeconds now fail_at tbl =
     (if fail_at = Some 0 then (Inl BackendError, tbl, [])
      else case map_of tbl taskId of
        None \<Rightarrow> (Inr (), tbl, [])
      | Some it \<Rightarrow>
          if fail_at = Some 1 then (Inl BackendError, tbl, [])
          else (Inr (), AList.update taskId (regrabbed (now + timeoutInSeconds * 1000) it) tbl, []))"

section \<open>Histories of the task store\<close>

datatype task_op =
  Register string string int int "nat option"
  | Grab nat int "nat option"
  | Extend string int int "nat option"
  | Delete string "nat option"

fun do_task_op :: "task_op \<Rightarrow> task_table \<Rightarrow> task_table" where
  "do_task_op (Register task taskid secs now f) tbl = fst (snd (register task taskid secs now f tbl))"
| "do_task_op (Grab count now f) tbl = fst (snd (grab count now f tbl))"
| "do_task_op (Extend taskId secs now f) tbl = fst (snd (extend taskId secs now f tbl))"
| "do_task_op (Delete taskId f) tbl = fst (snd (delete_task taskId f tbl))"

definition run_tasks :: "task_op list \<Rightarrow> task_table \<Rightarrow> task_table" where
  "run_tasks ops tbl = foldl (\<lambda>t op. do_task_op op t) tbl ops"

text \<open>What holds of every table these operations build from the empty one: one row per
  task id, each with the five attributes as \<^verbatim>\<open>register\<close> types them.\<close>

definition task_row :: "string \<times> item \<Rightarrow> bool" where
  "task_row row \<longleftrightarrow>
     snd row ''taskid'' = Some (S (fst row)) \<and>
     snd row ''tenantid'' = Some (S ''default'') \<and>
     (\<exists>n. snd row ''timeout'' = Some (N n)) \<and>
     (\<exists>p. snd row ''task'' = Some (S p)) \<and>
     (\<exists>r. snd row ''retryCount'' = Some (S r))"

definition task_inv :: "task_table \<Rightarrow> bool" where
  "task_inv tbl \<longleftrightarrow> distinct (map fst tbl) \<and> list_all task_row tbl"

text \<open>The stored expiry of a task, and the payload and retry count attributes it is stored
  with.\<close>

definition lease_of :: "task_table \<Rightarrow> string \<Rightarrow> int option" where
  "lease_of tbl k =
     (case map_of tbl k of
        None \<Rightarrow> None
      | Some it \<Rightarrow> (case it ''timeout'' of Some (N n) \<Rightarrow> Some n | _ \<Rightarrow> None))"

definition due :: "task_table \<Rightarrow> string \<Rightarrow> int" where
  "due tbl k = (case lease_of tbl k of None \<Rightarrow> 0 | Some n \<Rightarrow> n)"

definition kept_of :: "task_table \<Rightarrow> string \<Rightarrow> attr option \<times> attr option" where
  "kept_of tbl k =
     (case map_of tbl k of
        None \<Rightarrow> (None, None)
      | Some it \<Rightarrow> (it ''task'', it ''retryCount''))"

text \<open>Three tasks registered at time 0 with leases of 1, 3 and 2 seconds.\<close>

definition three_tasks :: "task_op list" where
  "three_tasks = [Register ''[1]'' ''t1'' 1 0 None, Register ''[2]'' ''t2'' 3 0 None,
                  Register ''[3]'' ''t3'' 2 0 None]"

text \<open>The task id an item carries, and the task that \<^verbatim>\<open>grab\<close> returns for it.\<close>

definition id_of :: "item \<Rightarrow> string" where
  "id_of it = (case it ''taskid'' of Some (S k) \<Rightarrow> k | _ \<Rightarrow> [])"

definition grabbed :: "int \<Rightarrow> item \<Rightarrow> ManagedResumableTask" where
  "grabbed newTimeout it =
     \<lparr>task_id = id_of it,
      task_payload = (case it ''task'' of Some (S p) \<Rightarrow> p | _ \<Rightarrow> ''{}''),
      retryCount = (case it ''retryCount'' of Some (N n) \<Rightarrow> n | _ \<Rightarrow> 0),
      timeout = newTimeout\<rparr>"

section \<open>Watermarks of the event log\<close>

lemma log_invD:
  assumes "log_inv tbl"
  shows "\<And>t c w. c \<noteq> ''counter'' \<Longrightarrow> watermark_of tbl (t, c) = Some w \<Longrightarrow> w \<le> count_of tbl t"
    and "\<And>t c c' w. c \<noteq> ''counter'' \<Longrightarrow> c' \<noteq> ''counter'' \<Longrightarrow>
            watermark_of tbl (t, c) = Some w \<Longrightarrow> watermark_of tbl (t, c') = Some w \<Longrightarrow> c = c'"
    and "\<And>t it. map_of tbl (t, ''counter'') = Some it \<Longrightarrow> \<exists>n. it ''count'' = Some (N n)"
proof -
  from assms have
    a: "\<forall>t c w. c \<noteq> ''counter'' \<longrightarrow> watermark_of tbl (t, c) = Some w \<longrightarrow> w \<le> count_of tbl t"
    and b: "\<forall>t c c' w. c \<noteq> ''counter'' \<longrightarrow> c' \<noteq> ''counter'' \<longrightarrow>
        watermark_of tbl (t, c) = Some w \<longrightarrow> watermark_of tbl (t, c') = Some w \<longrightarrow> c = c'"
    and c: "\<forall>t it. map_of tbl (t, ''counter'') = Some it \<longrightarrow> (\<exists>n. it ''count'' = Some (N n))"
    by (simp_all add: log_inv_def)
  show "\<And>t c w. c \<noteq> ''counter'' \<Longrightarrow> watermark_of tbl (t, c) = Some w \<Longrightarrow> w \<le> count_of tbl t"
    by (rule a[rule_format])
  show "\<And>t c c' w. c \<noteq> ''counter'' \<Longrightarrow> c' \<noteq> ''counter'' \<Longrightarrow>
            watermark_of tbl (t, c) = Some w \<Longrightarrow> watermark_of tbl (t, c') = Some w \<Longrightarrow> c = c'"
    by (rule b[rule_format])
  show "\<And>t it. map_of tbl (t, ''counter'') = Some it \<Longrightarrow> \<exists>n. it ''count'' = Some (N n)"
    by (rule c[rule_format])
qed

lemma counter_key_inj: "counter_key t = counter_key t' \<longleftrightarrow> t = t'"
  by (simp add: counter_key_def)

lemma counter_key_snd: "counter_key t = (a, b) \<Longrightarrow> b = ''counter''"
  by (auto simp: counter_key_def)

lemma update_count_ok:
  assumes "\<forall>t it. map_of tbl (t, ''counter'') = Some it \<longrightarrow> (\<exists>n. it ''count'' = Some (N n))"
  shows "\<exists>it tbl1. update_count (counter_key t) tbl = Inr (count_of tbl t + 1, tbl1) \<and>
           map_of tbl1 = (map_of tbl)(counter_key t \<mapsto> it) \<and>
           it ''count'' = Some (N (count_of tbl t + 1))"
proof (cases "map_of tbl (counter_key t)")
  case None
  then show ?thesis
    by (simp add: update_count_def count_of_def update_conv') (rule exI, rule conjI, rule refl, simp)
next
  case (Some old)
  then obtain n where "old ''count'' = Some (N n)"
    using assms by (auto simp: counter_key_def)
  with Some show ?thesis
    by (simp add: update_count_def count_of_def update_conv') (rule exI, rule conjI, rule refl, simp)
qed

lemma key_of_append_item:
  assumes "(tags ++ idx) ''tenant'' = None" "(tags ++ idx) ''messageCid'' = None"
  shows "key_of (append_item t c tags idx w) = Some (t, c)"
  using assms by (auto simp: key_of_def append_item_def map_add_def split: option.splits)

lemma watermark_append_item: "append_item t c tags idx w ''watermark'' = Some (N w)"
  by (simp add: append_item_def)

lemma do_append_cases:
  assumes inv: "log_inv tbl" and pc: "plain_call c"
  shows "(ac_fail_at c = Some 0 \<and> do_append c tbl = tbl) \<or>
         (ac_fail_at c \<noteq> Some 0 \<and> (\<exists>it. map_of (do_append c tbl) = (map_of tbl)(counter_key (ac_tenant c) \<mapsto> it)
              \<and> it ''count'' = Some (N (count_of tbl (ac_tenant c) + 1))) \<and> ac_fail_at c = Some 1) \<or>
         (ac_fail_at c \<noteq> Some 0 \<and> ac_fail_at c \<noteq> Some 1 \<and> (\<exists>it. map_of (do_append c tbl) =
              (map_of tbl)(counter_key (ac_tenant c) \<mapsto> it,
                 (ac_tenant c, ac_cid c) \<mapsto> append_item (ac_tenant c) (ac_cid c) (ac_tags c) (ac_indexes c) (count_of tbl (ac_tenant c) + 1))
              \<and> it ''count'' = Some (N (count_of tbl (ac_tenant c) + 1))))"
proof -
  from inv have ct: "\<forall>t it. map_of tbl (t, ''counter'') = Some it \<longrightarrow> (\<exists>n. it ''count'' = Some (N n))"
    by (simp add: log_inv_def)
  from update_count_ok[OF ct, of "ac_tenant c"] obtain it tbl1 where
    u: "update_count (counter_key (ac_tenant c)) tbl = Inr (count_of tbl (ac_tenant c) + 1, tbl1)"
    and m: "map_of tbl1 = (map_of tbl)(counter_key (ac_tenant c) \<mapsto> it)"
    and cnt: "it ''count'' = Some (N (count_of tbl (ac_tenant c) + 1))" by blast
  from pc have k: "key_of (append_item (ac_tenant c) (ac_cid c) (ac_tags c) (ac_indexes c) w) = Some (ac_tenant c, ac_cid c)" for w
    by (simp add: plain_call_def key_of_append_item)
  show ?thesis
    using u m cnt k
    by (auto simp: do_append_def append_event_def put_item_def update_conv')
qed


lemma count_of_do_append:
  assumes inv: "log_inv tbl" and pc: "plain_call c"
  shows "count_of (do_append c tbl) t =
           count_of tbl t + (if ac_tenant c = t \<and> ac_fail_at c \<noteq> Some 0 then 1 else 0)"
proof -
  have ne: "(ac_tenant c, ac_cid c) \<noteq> counter_key t"
    using pc by (auto simp: plain_call_def counter_key_def)
  show ?thesis
    using do_append_cases[OF inv pc] ne
    by (elim disjE conjE exE) (simp_all add: count_of_def counter_key_inj)
qed

lemma watermark_of_do_append:
  assumes inv: "log_inv tbl" and pc: "plain_call c" and ok: "ac_fail_at c = None"
  shows "watermark_of (do_append c tbl) (ac_tenant c, ac_cid c) = Some (count_of tbl (ac_tenant c) + 1)"
  using do_append_cases[OF inv pc] ok
  by (auto simp: watermark_of_def watermark_append_item)



lemma log_inv_do_append:
  assumes inv: "log_inv tbl" and pc: "plain_call c"
  shows "log_inv (do_append c tbl)"
proof -
  let ?t = "ac_tenant c" and ?c = "ac_cid c"
  let ?tbl' = "do_append c tbl"
  have cne: "?c \<noteq> ''counter''" using pc by (simp add: plain_call_def)
  have mono: "count_of tbl t \<le> count_of ?tbl' t" for t
    by (simp add: count_of_do_append[OF inv pc])
  note i1 = log_invD(1)[OF inv] and i2 = log_invD(2)[OF inv] and i3 = log_invD(3)[OF inv]
  consider (a) "ac_fail_at c = Some 0" "?tbl' = tbl"
    | (b) it where "ac_fail_at c \<noteq> Some 0" "map_of ?tbl' = (map_of tbl)(counter_key ?t \<mapsto> it)"
         "it ''count'' = Some (N (count_of tbl ?t + 1))"
    | (c) it where "ac_fail_at c \<noteq> Some 0" "map_of ?tbl' = (map_of tbl)(counter_key ?t \<mapsto> it,
                 (?t, ?c) \<mapsto> append_item ?t ?c (ac_tags c) (ac_indexes c) (count_of tbl ?t + 1))"
         "it ''count'' = Some (N (count_of tbl ?t + 1))"
    using do_append_cases[OF inv pc] by (elim disjE conjE exE) simp_all
  then show ?thesis
  proof cases
    case a
    then show ?thesis using inv by simp
  next
    case b
    have ev: "map_of ?tbl' (t, c') = map_of tbl (t, c')" if "c' \<noteq> ''counter''" for t c'
      using that by (simp add: b(2) counter_key_def)
    have wm: "watermark_of ?tbl' (t, c') = watermark_of tbl (t, c')" if "c' \<noteq> ''counter''" for t c'
      using ev[OF that] by (simp add: watermark_of_def)
    show ?thesis unfolding log_inv_def
    proof (intro conjI allI impI)
      fix t c' w assume "c' \<noteq> ''counter''" "watermark_of ?tbl' (t, c') = Some w"
      then have "w \<le> count_of tbl t" using i1[of c' t w] wm[of c' t] by simp
      then show "w \<le> count_of ?tbl' t" using mono[of t] by linarith
    next
      fix t c1 c2 w assume "c1 \<noteq> ''counter''" "c2 \<noteq> ''counter''"
        "watermark_of ?tbl' (t, c1) = Some w" "watermark_of ?tbl' (t, c2) = Some w"
      then show "c1 = c2" using i2[of c1 c2 t w] wm[of c1 t] wm[of c2 t] by simp
    next
      fix t it' assume h: "map_of ?tbl' (t, ''counter'') = Some it'"
      show "\<exists>n. it' ''count'' = Some (N n)"
      proof (cases "(t, ''counter'') = counter_key ?t")
        case True
        then show ?thesis using h b(3) by (simp add: b(2))
      next
        case False
        then show ?thesis using h i3[of t it'] by (simp add: b(2))
      qed
    qed
  next
    case c
    have ev: "map_of ?tbl' (t, c') = map_of tbl (t, c')" if "c' \<noteq> ''counter''" "(t, c') \<noteq> (?t, ?c)" for t c'
      using that by (auto simp add: c(2) counter_key_def)
    have wm: "watermark_of ?tbl' (t, c') = watermark_of tbl (t, c')" if "c' \<noteq> ''counter''" "(t, c') \<noteq> (?t, ?c)" for t c'
      using ev[OF that] by (simp add: watermark_of_def)
    have wnew: "watermark_of ?tbl' (?t, ?c) = Some (count_of tbl ?t + 1)"
      by (simp add: c(2) watermark_of_def watermark_append_item)
    have cnt': "count_of ?tbl' ?t = count_of tbl ?t + 1"
      using c(1) by (simp add: count_of_do_append[OF inv pc])
    show ?thesis unfolding log_inv_def
    proof (intro conjI allI impI)
      fix t c' w assume h: "c' \<noteq> ''counter''" "watermark_of ?tbl' (t, c') = Some w"
      show "w \<le> count_of ?tbl' t"
      proof (cases "(t, c') = (?t, ?c)")
        case True
        then show ?thesis using h wnew cnt' by simp
      next
        case False
        then have "w \<le> count_of tbl t" using h i1[of c' t w] wm[of c' t] by simp
        then show ?thesis using mono[of t] by linarith
      qed
    next
      fix t c1 c2 w assume h: "c1 \<noteq> ''counter''" "c2 \<noteq> ''counter''"
        "watermark_of ?tbl' (t, c1) = Some w" "watermark_of ?tbl' (t, c2) = Some w"
      have old: "w \<le> count_of tbl t" if "c' \<noteq> ''counter''" "(t, c') \<noteq> (?t, ?c)" "watermark_of ?tbl' (t, c') = Some w" for c'
        using that i1[of c' t w] wm[of c' t] by simp
      show "c1 = c2"
      proof (cases "(t, c1) = (?t, ?c)")
        case T1: True
        show ?thesis
        proof (cases "(t, c2) = (?t, ?c)")
          case True then show ?thesis using T1 by simp
        next
          case False
          then have "w \<le> count_of tbl t" using old[of c2] h by simp
          moreover have "w = count_of tbl t + 1" using T1 h wnew by simp
          ultimately show ?thesis by simp
        qed
      next
        case F1: False
        show ?thesis
        proof (cases "(t, c2) = (?t, ?c)")
          case True
          have "w \<le> count_of tbl t" using old[of c1] h F1 by simp
          moreover have "w = count_of tbl t + 1" using True h wnew by simp
          ultimately show ?thesis by simp
        next
          case False
          then show ?thesis using F1 h i2[of c1 c2 t w] wm[of c1 t] wm[of c2 t] by simp
        qed
      qed
    next
      fix t it' assume h: "map_of ?tbl' (t, ''counter'') = Some it'"
      have "map_of ?tbl' (t, ''counter'') = ((map_of tbl)(counter_key ?t \<mapsto> it)) (t, ''counter'')"
        using cne by (auto simp add: c(2))
      with h have h': "((map_of tbl)(counter_key ?t \<mapsto> it)) (t, ''counter'') = Some it'" by simp
      show "\<exists>n. it' ''count'' = Some (N n)"
      proof (cases "(t, ''counter'') = counter_key ?t")
        case True
        then show ?thesis using h' c(3) by simp
      next
        case False
        then show ?thesis using h' i3[of t it'] by simp
      qed
    qed
  qed
qed

lemma log_inv_empty: "log_inv []"
  by (simp add: log_inv_def watermark_of_def)

lemma run_appends_snoc: "run_appends (calls @ [c]) tbl = do_append c (run_appends calls tbl)"
  by (simp add: run_appends_def)

lemma log_inv_run:
  "list_all plain_call calls \<Longrightarrow> log_inv (run_appends calls [])"
proof (induction calls rule: rev_induct)
  case Nil
  then show ?case by (simp add: run_appends_def log_inv_empty)
next
  case (snoc c calls)
  then show ?case by (simp add: run_appends_snoc log_inv_do_append)
qed

lemma count_of_run:
  "list_all plain_call calls \<Longrightarrow> count_of (run_appends calls []) t = int (increments t calls)"
proof (induction calls rule: rev_induct)
  case Nil
  then show ?case by (simp add: run_appends_def count_of_def increments_def)
next
  case (snoc c calls)
  then show ?case
    by (simp add: run_appends_snoc count_of_do_append log_inv_run increments_def)
qed

text \<open>
  C1, as the code has it. Over any history of plain appends from the empty log, an append
  whose two backend calls succeed stores its event with the watermark 1 + the number of
  earlier appends of the same tenant whose counter increment went through, whether or not
  their own write followed. So the watermarks of a tenant grow by exactly 1 from one
  stored event to the next when no append lost its write in between, the first stored
  event carries 1 when none did before it, and no two events of one tenant in the log
  carry the same watermark.
\<close>

theorem append_watermark:
  assumes "list_all plain_call calls" and "plain_call c" and "ac_fail_at c = None"
  shows "watermark_of (run_appends (calls @ [c]) []) (ac_tenant c, ac_cid c)
           = Some (int (increments (ac_tenant c) calls) + 1) \<and>
         (\<forall>t c1 c2 w. c1 \<noteq> ''counter'' \<and> c2 \<noteq> ''counter'' \<and>
            watermark_of (run_appends (calls @ [c]) []) (t, c1) = Some w \<and>
            watermark_of (run_appends (calls @ [c]) []) (t, c2) = Some w \<longrightarrow> c1 = c2)"
proof -
  have inv: "log_inv (run_appends calls [])" using assms(1) by (rule log_inv_run)
  have inv': "log_inv (run_appends (calls @ [c]) [])"
    using assms(1,2) by (intro log_inv_run) simp
  have "watermark_of (run_appends (calls @ [c]) []) (ac_tenant c, ac_cid c)
           = Some (int (increments (ac_tenant c) calls) + 1)"
    using watermark_of_do_append[OF inv assms(2,3)] count_of_run[OF assms(1)]
    by (simp add: run_appends_snoc)
  moreover have "\<forall>t c1 c2 w. c1 \<noteq> ''counter'' \<and> c2 \<noteq> ''counter'' \<and>
            watermark_of (run_appends (calls @ [c]) []) (t, c1) = Some w \<and>
            watermark_of (run_appends (calls @ [c]) []) (t, c2) = Some w \<longrightarrow> c1 = c2"
    using log_invD(2)[OF inv'] by (intro allI impI) (elim conjE)
  ultimately show ?thesis by (rule conjI)
qed

theorem append_watermark_witness:
  "list_all plain_call [failed_write] \<and> plain_call good_write \<and> ac_fail_at good_write = None \<and>
   watermark_of (run_appends ([failed_write] @ [good_write]) []) (''alice'', ''c2'') = Some 2"
  using append_watermark[of "[failed_write]" good_write]
  by (simp add: plain_call_def increments_def failed_write_def good_write_def)

text \<open>C1 as written fails where an append loses its write after the increment: the
  first event stored for the tenant then carries the watermark 2.\<close>

theorem first_watermark_counterexample:
  "watermark_of (run_appends [failed_write, good_write] []) (''alice'', ''c1'') = None \<and>
   watermark_of (run_appends [failed_write, good_write] []) (''alice'', ''c2'') = Some 2"
  by (simp add: run_appends_def do_append_def append_event_def update_count_def put_item_def
        key_of_def append_item_def counter_key_def watermark_of_def failed_write_def good_write_def)

section \<open>Backend failures\<close>

lemma append_event_returns: "fst (append_event t c tags idx f tbl) = Inr ()"
  by (simp add: append_event_def split: sum.splits prod.splits)

lemma put_returns: "fst (put t c bytes ed tags idx f tbl) = Inr ()"
  by (simp add: put_def split: option.splits sum.splits)

lemma update_count_other:
  "update_count k tbl = Inr (n, tbl1) \<Longrightarrow> k' \<noteq> k \<Longrightarrow> map_of tbl1 k' = map_of tbl k'"
  by (auto simp: update_count_def Let_def update_conv' split: option.splits attr.splits)

lemma append_event_put_fails:
  "k \<noteq> counter_key t \<Longrightarrow>
   map_of (fst (snd (append_event t c tags idx (Some 1) tbl))) k = map_of tbl k"
  by (auto simp: append_event_def update_count_other split: sum.splits prod.splits)

lemma append_event_logs:
  "f = Some 0 \<or> f = Some 1 \<Longrightarrow> snd (snd (append_event t c tags idx f tbl)) \<noteq> []"
  by (auto simp: append_event_def split: sum.splits prod.splits)

text \<open>
  C7, as the code has it. \<^verbatim>\<open>append\<close> and \<^verbatim>\<open>put\<close> catch every error of the backend and
  only print it: the caller always sees a normal return. When the first backend call fails
  nothing is written; when the write of \<^verbatim>\<open>append\<close> fails after the increment, no event
  is stored and only the counter record has changed.
\<close>

theorem write_failure_swallowed:
  "fst (append_event t c tags idx f tbl) = Inr () \<and>
   fst (put t c bytes ed tags idx f tbl) = Inr () \<and>
   (f = Some 0 \<longrightarrow> append_event t c tags idx f tbl = (Inr (), tbl, [BackendError])) \<and>
   (f = Some 1 \<longrightarrow> snd (snd (append_event t c tags idx f tbl)) \<noteq> [] \<and>
       (\<forall>k. k \<noteq> counter_key t \<longrightarrow> map_of (fst (snd (append_event t c tags idx f tbl))) k = map_of tbl k)) \<and>
   (f = Some 0 \<longrightarrow> fst (snd (put t c bytes ed tags idx f tbl)) = tbl \<and>
       snd (snd (put t c bytes ed tags idx f tbl)) \<noteq> [])"
proof (intro conjI impI allI)
  show "fst (append_event t c tags idx f tbl) = Inr ()" by (rule append_event_returns)
  show "fst (put t c bytes ed tags idx f tbl) = Inr ()" by (rule put_returns)
  show "append_event t c tags idx f tbl = (Inr (), tbl, [BackendError])" if "f = Some 0"
    using that by (simp add: append_event_def)
  show "snd (snd (append_event t c tags idx f tbl)) \<noteq> []" if "f = Some 1"
    using that append_event_logs[of f] by simp
  show "map_of (fst (snd (append_event t c tags idx f tbl))) k = map_of tbl k"
    if "f = Some 1" "k \<noteq> counter_key t" for k
    using that append_event_put_fails by simp
  show "fst (snd (put t c bytes ed tags idx f tbl)) = tbl" if "f = Some 0"
    using that by (simp add: put_def split: option.splits)
  show "snd (snd (put t c bytes ed tags idx f tbl)) \<noteq> []" if "f = Some 0"
    using that by (simp add: put_def split: option.splits)
qed

theorem write_failure_swallowed_witness:
  "append_event ''alice'' ''c1'' Map.empty Map.empty (Some 0) [] = (Inr (), [], [BackendError]) \<and>
   fst (put ''alice'' ''c1'' ''bytes'' None Map.empty Map.empty (Some 0) []) = Inr () \<and>
   fst (snd (put ''alice'' ''c1'' ''bytes'' None Map.empty Map.empty (Some 0) [])) = []"
  using write_failure_swallowed[of "''alice''" "''c1''" Map.empty Map.empty "Some 0" "[]" "''bytes''" None]
  by simp

text \<open>C7 as written fails at a failing backend: each operation returns normally, with
  the table as it was or with nothing but the counter record in it.\<close>

theorem write_failure_counterexample:
  "append_event ''alice'' ''c1'' Map.empty Map.empty (Some 0) [] = (Inr (), [], [BackendError]) \<and>
   fst (append_event ''alice'' ''c1'' Map.empty Map.empty (Some 1) []) = Inr () \<and>
   map_of (fst (snd (append_event ''alice'' ''c1'' Map.empty Map.empty (Some 1) []))) (''alice'', ''c1'') = None \<and>
   put ''alice'' ''c1'' ''bytes'' None Map.empty Map.empty (Some 0) [] = (Inr (), [], [BackendError])"
  by (simp add: append_event_def update_count_def counter_key_def put_def put_input_def add_sort_def)

text \<open>
  C8, as the code has it. When the backend fails, the event log's query prints the error
  and returns no events (with the blank cursor), and \<^verbatim>\<open>grab\<close> prints it and returns no
  tasks, leaving the table alone; the message store's query prints the error and throws it
  again.
\<close>

theorem read_failures:
  "fst (queryEvents t fs cur (Some 0) tbl) = Inr ([], Some Blank) \<and>
   snd (queryEvents t fs cur (Some 0) tbl) \<noteq> [] \<and>
   grab count now (Some 0) tasks = (Inr [], tasks, [BackendError]) \<and>
   query t fs ms pg (Some 0) tbl = (Inl BackendError, [BackendError])"
  by (simp add: queryEvents_def grab_def query_def Let_def split: option.splits cursor.splits)

theorem read_failures_witness:
  "fst (queryEvents ''alice'' [] None (Some 0) two_events) = Inr ([], Some Blank) \<and>
   grab 1 0 (Some 0) [] = (Inr [], [], [BackendError]) \<and>
   query ''alice'' [] None None (Some 0) three_messages = (Inl BackendError, [BackendError])"
  using read_failures[where t = "''alice''" and fs = "[]" and cur = None and tbl = two_events
      and count = 1 and now = 0 and tasks = "[]" and ms = None and pg = None]
    read_failures[where t = "''alice''" and fs = "[]" and cur = None and tbl = three_messages
      and count = 1 and now = 0 and tasks = "[]" and ms = None and pg = None]
  by simp

text \<open>C8 as written fails for the message store: its query does not return an empty
  list, it rejects.\<close>

theorem query_rethrows_counterexample:
  "fst (query ''alice'' [] None None (Some 0) three_messages) = Inl BackendError"
  by (simp add: query_def Let_def)

section \<open>Filter expressions\<close>

lemma message_step_eq:
  "message_step acc nf =
     (fst acc @ map (map fst) (filter (\<lambda>cs. cs \<noteq> []) [concat (map (message_conditions (fst nf)) (snd nf))]),
      bind_values (concat (map (message_conditions (fst nf)) (snd nf))) (snd acc))"
  by (simp add: message_step_def Let_def)

lemma bind_values_append: "bind_values (xs @ ys) m = bind_values ys (bind_values xs m)"
  by (simp add: bind_values_def)

lemma foldl_message_step:
  "foldl message_step acc nfs =
     (fst acc @ map (map fst) (filter (\<lambda>cs. cs \<noteq> [])
                  (map (\<lambda>nf. concat (map (message_conditions (fst nf)) (snd nf))) nfs)),
      bind_values (concat (map (\<lambda>nf. concat (map (message_conditions (fst nf)) (snd nf))) nfs)) (snd acc))"
proof (induction nfs arbitrary: acc)
  case Nil
  then show ?case by (simp add: bind_values_def)
next
  case (Cons nf nfs)
  let ?G = "\<lambda>nf. concat (map (message_conditions (fst nf)) (snd nf))"
  have "foldl message_step acc (nf # nfs) = foldl message_step (message_step acc nf) nfs" by simp
  also have "\<dots> = (fst (message_step acc nf) @ map (map fst) (filter (\<lambda>cs. cs \<noteq> []) (map ?G nfs)),
      bind_values (concat (map ?G nfs)) (snd (message_step acc nf)))"
    by (rule Cons.IH)
  also have "\<dots> = (fst acc @ map (map fst) (filter (\<lambda>cs. cs \<noteq> []) (map ?G (nf # nfs))),
      bind_values (concat (map ?G (nf # nfs))) (snd acc))"
    by (simp add: message_step_eq bind_values_append)
  finally show ?case .
qed

lemma message_translate_groups:
  "message_translate filters =
     (map (map fst) (filter (\<lambda>cs. cs \<noteq> []) (message_groups filters)),
      bind_values (concat (message_groups filters)) Map.empty)"
  by (simp add: message_translate_def foldl_message_step message_groups_def)

lemma bind_values_other:
  "p \<notin> (\<lambda>cv. snd (snd (fst cv))) ` set cs \<Longrightarrow> bind_values cs m p = m p"
  unfolding bind_values_def by (induction cs arbitrary: m) auto

lemma bind_values_distinct:
  "distinct (map (\<lambda>cv. snd (snd (fst cv))) cs) \<Longrightarrow> cv \<in> set cs \<Longrightarrow>
   bind_values cs m (snd (snd (fst cv))) = Some (snd cv)"
proof (induction cs arbitrary: m)
  case Nil
  then show ?case by simp
next
  case (Cons c cs)
  show ?case
  proof (cases "cv = c")
    case True
    have "snd (snd (fst c)) \<notin> (\<lambda>cv. snd (snd (fst cv))) ` set cs" using Cons.prems(1) by simp
    from bind_values_other[OF this, of "m(snd (snd (fst c)) \<mapsto> snd c)"]
    show ?thesis using True by (simp add: bind_values_def)
  next
    case False
    then have "cv \<in> set cs" using Cons.prems(2) by simp
    then have "bind_values cs (m(snd (snd (fst c)) \<mapsto> snd c)) (snd (snd (fst cv))) = Some (snd cv)"
      using Cons.prems(1) by (intro Cons.IH) simp_all
    then show ?thesis by (simp add: bind_values_def)
  qed
qed

lemma join_empty: "\<forall>x \<in> set xs. x \<noteq> [] \<Longrightarrow> join sep xs = [] \<longleftrightarrow> xs = []"
  by (induction sep xs rule: join.induct) auto

lemma filter_param_groups: "filter_param groups = (if groups = [] then None else Some groups)"
proof -
  have "\<forall>x \<in> set (map group_text groups). x \<noteq> []" by (simp add: group_text_def)
  from join_empty[OF this] show ?thesis by (simp add: filter_param_def filterExp_def)
qed

lemma bound_placeholder: "cv \<in> set (bound key op p b) \<Longrightarrow> snd (snd (fst cv)) = p"
  by (cases b) (auto simp: bound_def split: if_splits)

lemma range_placeholder:
  "cv \<in> set (range_conditions key x gt gte lt lte) \<Longrightarrow> \<exists>rest. snd (snd (fst cv)) = x @ rest"
  unfolding range_conditions_def by (auto dest!: bound_placeholder)

lemma message_conditions_placeholder:
  assumes "cv \<in> set (message_conditions i kv)"
  shows "\<exists>rest. snd (snd (fst cv)) = '':x'' @ rest"
proof (cases "snd kv")
  case (Scalar v)
  then show ?thesis using assms by (simp add: message_conditions_def Let_def)
next
  case (Range gt gte lt lte)
  then have "cv \<in> set (range_conditions (replace_dot (rename_key (fst kv)))
                 ('':x'' @ replace_dot (rename_key (fst kv)) @ decimal i) gt gte lt lte)"
    using assms by (simp add: message_conditions_def Let_def)
  from range_placeholder[OF this] obtain rest where
    "snd (snd (fst cv)) = ('':x'' @ replace_dot (rename_key (fst kv)) @ decimal i) @ rest" by blast
  then have "snd (snd (fst cv)) = '':x'' @ (replace_dot (rename_key (fst kv)) @ decimal i @ rest)"
    by simp
  then show ?thesis by (rule exI)
next
  case (OneOf vs)
  then show ?thesis using assms by (simp add: message_conditions_def Let_def)
qed

lemma message_groups_placeholder:
  assumes "g \<in> set (message_groups filters)" "cv \<in> set g"
  shows "snd (snd (fst cv)) \<noteq> '':tenant''"
proof -
  from assms obtain i kv where "cv \<in> set (message_conditions i kv)"
    by (auto simp: message_groups_def)
  from message_conditions_placeholder[OF this] show ?thesis by auto
qed

lemma message_params_filter:
  "FilterExpression (message_params tenant filters ms pg) = filter_param (fst (message_translate filters))"
  "ExpressionAttributeValues (message_params tenant filters ms pg) p =
     map_option marshall_val (((snd (message_translate filters))('':tenant'' \<mapsto> VStr tenant)) p)"
  by (simp_all add: message_params_def Let_def)


text \<open>
  What the filter of a message-store query means. When no two conditions of the filter list
  have the same placeholder, an item passes exactly when the list produced no condition at
  all, or some group that produced conditions has all of them hold of the item: the
  conditions of a group are ANDed, the groups ORed, and a group without conditions is left
  out.
\<close>

lemma message_filter_semantics:
  assumes d: "distinct (map (\<lambda>cv. snd (snd (fst cv))) (concat (message_groups filters)))"
  shows "matches (ExpressionAttributeValues (message_params tenant filters ms pg))
           (FilterExpression (message_params tenant filters ms pg)) it
         \<longleftrightarrow> (list_all (\<lambda>g. g = []) (message_groups filters) \<or>
              list_ex (\<lambda>g. g \<noteq> [] \<and> list_all (holds it) g) (message_groups filters))"
proof -
  let ?MG = "message_groups filters"
  let ?vals = "ExpressionAttributeValues (message_params tenant filters ms pg)"
  let ?kept = "filter (\<lambda>cs. cs \<noteq> []) ?MG"
  have fe: "FilterExpression (message_params tenant filters ms pg)
              = (if ?kept = [] then None else Some (map (map fst) ?kept))"
    by (simp add: message_params_filter message_translate_groups filter_param_groups)
  have ev: "eval_condition ?vals it (fst cv) = holds it cv" if g: "g \<in> set ?MG" and cv: "cv \<in> set g" for g cv
  proof -
    have "cv \<in> set (concat ?MG)" using g cv by auto
    from bind_values_distinct[OF d this, of Map.empty]
    have "?vals (snd (snd (fst cv))) = Some (marshall_val (snd cv))"
      using message_groups_placeholder[OF g cv]
      by (simp add: message_params_filter message_translate_groups)
    then show ?thesis by (simp add: eval_condition_def holds_def split: option.split)
  qed
  have empty: "?kept = [] \<longleftrightarrow> list_all (\<lambda>g. g = []) ?MG"
    by (auto simp: filter_empty_conv list_all_iff)
  show ?thesis
  proof (cases "?kept = []")
    case True
    then show ?thesis using empty by (simp add: fe matches_def)
  next
    case False
    have "matches ?vals (FilterExpression (message_params tenant filters ms pg)) it
            \<longleftrightarrow> (\<exists>g \<in> set ?MG. g \<noteq> [] \<and> (\<forall>cv \<in> set g. eval_condition ?vals it (fst cv)))"
      using False by (auto simp: fe matches_def list_ex_iff list_all_iff)
    also have "\<dots> \<longleftrightarrow> (\<exists>g \<in> set ?MG. g \<noteq> [] \<and> (\<forall>cv \<in> set g. holds it cv))"
      using ev by blast
    also have "\<dots> \<longleftrightarrow> list_ex (\<lambda>g. g \<noteq> [] \<and> list_all (holds it) g) ?MG"
      by (simp add: list_ex_iff list_all_iff)
    finally show ?thesis using False empty by simp
  qed
qed

text \<open>The group \<^verbatim>\<open>{ x: { gt: 5, lte: 10 } }\<close> in both stores, tried on items with
  \<open>x\<close> = 5, 6, 10 and 11.\<close>

lemma range_example:
  "message_groups [[(''x'', Range (Some (VNum 5)) None None (Some (VNum 10)))]]
     = [[((''x'', GT, '':xx0GT''), VNum 5), ((''x'', LTE, '':xx0LTE''), VNum 10)]] \<and>
   map (\<lambda>n. matches
               (ExpressionAttributeValues
                  (message_params ''alice'' [[(''x'', Range (Some (VNum 5)) None None (Some (VNum 10)))]] None None))
               (FilterExpression
                  (message_params ''alice'' [[(''x'', Range (Some (VNum 5)) None None (Some (VNum 10)))]] None None))
               [''x'' \<mapsto> N n]) [5, 6, 10, 11] = [False, True, True, False] \<and>
   map (\<lambda>n. matches
               (ExpressionAttributeValues
                  (event_params ''alice'' [[(''x'', Range (Some (VNum 5)) None None (Some (VNum 10)))]] None))
               (FilterExpression
                  (event_params ''alice'' [[(''x'', Range (Some (VNum 5)) None None (Some (VNum 10)))]] None))
               [''x'' \<mapsto> N n]) [5, 6, 10, 11] = [False, True, True, False]"
  by code_simp

text \<open>
  C4 at \<^verbatim>\<open>queryEvents('alice', [{ protocol: 'p1' }, { protocol: 'p2' }])\<close> on a log with
  one event per protocol. The event log names a placeholder after the property alone, so
  both groups compare with \<^verbatim>\<open>:xprotocolEQ\<close>, which holds the value of the last group:
  the query returns the second event only, although each group alone finds its event. The
  message store puts the position of the group into the name and keeps the values apart, and
  its query with \<^verbatim>\<open>[{ flag: 'yes' }, { flag: 'no' }]\<close> finds the messages of both
  groups.
\<close>

theorem event_groups_share_placeholder:
  "filterExp (fst (event_translate either_protocol))
     = ''(protocol = :xprotocolEQ) OR (protocol = :xprotocolEQ)'' \<and>
   snd (event_translate either_protocol) '':xprotocolEQ'' = Some (VStr ''p2'') \<and>
   event_ids (queryEvents ''alice'' [either_protocol ! 0] None None two_events) = [''e1''] \<and>
   event_ids (queryEvents ''alice'' [either_protocol ! 1] None None two_events) = [''e2''] \<and>
   event_ids (queryEvents ''alice'' either_protocol None None two_events) = [''e2''] \<and>
   filterExp (fst (message_translate either_protocol))
     = ''(protocol = :xprotocol0EQ) OR (protocol = :xprotocol1EQ)'' \<and>
   cids (query ''alice'' either_flag by_dateCreated None None three_messages)
     = Inr ([''m1'', ''m2'', ''m3''], None)"
  by code_simp

text \<open>
  C5 at \<^verbatim>\<open>queryEvents('alice', [{}])\<close> and at a filter whose only value is an array. The
  event log pushes the group without looking at its conditions: the expression is
  \<^verbatim>\<open>()\<close>, the backend refuses it, and the query falls back to the empty answer although
  the log holds two events. The message store drops such a group.
\<close>

theorem event_empty_group_kept:
  "fst (event_translate [[]]) = [[]] \<and>
   filterExp (fst (event_translate [[]])) = ''()'' \<and>
   fst (event_translate [[(''protocol'', OneOf [VStr ''p1'', VStr ''p2''])]]) = [[]] \<and>
   event_ids (queryEvents ''alice'' [[]] None None two_events) = [] \<and>
   snd (queryEvents ''alice'' [[]] None None two_events) = [ValidationError] \<and>
   event_ids (queryEvents ''alice'' [] None None two_events) = [''e1'', ''e2''] \<and>
   fst (message_translate [[]]) = [] \<and>
   fst (message_translate [[(''protocol'', OneOf [VStr ''p1'', VStr ''p2''])]]) = []"
  by code_simp

section \<open>Pagination\<close>

lemma message_params_Limit:
  "limit pg = Some L \<Longrightarrow> 0 < L \<Longrightarrow>
   Limit (message_params tenant filters messageSort (Some pg)) = Some (L * length filters + 1)"
  by (simp add: message_params_def cursorInputSort_def Let_def)

lemma event_params_Limit: "Limit (event_params tenant filters start) = None"
  by (simp add: event_params_def Let_def)

lemma processPaginationResults_Inr:
  assumes "processPaginationResults results sp (Some L) = Inr (messages, cur)"
  shows "messages = take L results \<and>
         (L < length results \<longrightarrow> cur = Some (message_cursor sp (last messages))) \<and>
         (length results \<le> L \<longrightarrow> cur = None)"
  using assms by (auto simp: processPaginationResults_def Let_def split: if_splits)

lemma query_Inr:
  assumes "query tenant filters messageSort pagination fail_at tbl = (Inr r, log)"
  shows "\<exists>data. backend_query KeyS (fst (extractSortProperties messageSort) @ ''Sort'')
            (message_params tenant filters messageSort pagination) tbl = Inr data \<and>
          processPaginationResults (Items data) (fst (extractSortProperties messageSort))
            (Option.bind pagination limit) = Inr r"
  using assms by (auto simp: query_def Let_def split: if_splits sum.splits)

lemma queryEvents_quiet:
  assumes "queryEvents tenant filters c fail_at tbl = (Inr (events, cur), [])"
  shows "\<exists>data. backend_query KeyN ''watermark''
            (event_params tenant filters (case c of Some (Cursor k) \<Rightarrow> Some k | _ \<Rightarrow> None)) tbl = Inr data \<and>
          events = map event_id (Items data) \<and>
          (Items data \<noteq> [] \<longrightarrow> cur = Some (Cursor (event_cursor (last (Items data))))) \<and>
          (Items data = [] \<longrightarrow> cur = c)"
  using assms
  by (auto simp: queryEvents_def split: option.splits cursor.splits if_splits sum.splits list.splits)


text \<open>
  C3, as the code has it. A message-store query with a limit \<open>L\<close> of at least 1 and \<open>n\<close>
  filter groups asks the backend for \<open>L * n + 1\<close> rows, which is more than \<open>L\<close> as soon
  as there is a filter group. When it returns at all, it returns the first \<open>L\<close> of the
  items that came back; a cursor, built from the last item returned, is there exactly when
  more than \<open>L\<close> items came back. The event log's query sends no limit; when it ends
  without an error it returns every item that came back, with a cursor built from the last
  of them whenever there is one, and with the cursor it was given otherwise.
\<close>

theorem paging_as_coded:
  assumes "query tenant filters messageSort (Some pg) fail_at tbl = (Inr (messages, cur), log)"
      and "limit pg = Some L" and "0 < L"
  shows "Limit (message_params tenant filters messageSort (Some pg)) = Some (L * length filters + 1) \<and>
         (filters \<noteq> [] \<longrightarrow> L < L * length filters + 1) \<and>
         (\<exists>data. backend_query KeyS (fst (extractSortProperties messageSort) @ ''Sort'')
                    (message_params tenant filters messageSort (Some pg)) tbl = Inr data \<and>
                  messages = take L (Items data) \<and>
                  (L < length (Items data) \<longrightarrow>
                     cur = Some (message_cursor (fst (extractSortProperties messageSort)) (last messages))) \<and>
                  (length (Items data) \<le> L \<longrightarrow> cur = None)) \<and>
         Limit (event_params tenant filters start) = None \<and>
         (\<forall>c events cur' log_tbl. queryEvents tenant filters c fail_at log_tbl = (Inr (events, cur'), []) \<longrightarrow>
            (\<exists>data. backend_query KeyN ''watermark''
                       (event_params tenant filters (case c of Some (Cursor k) \<Rightarrow> Some k | _ \<Rightarrow> None)) log_tbl = Inr data \<and>
                     events = map event_id (Items data) \<and>
                     (Items data \<noteq> [] \<longrightarrow> cur' = Some (Cursor (event_cursor (last (Items data))))) \<and>
                     (Items data = [] \<longrightarrow> cur' = c)))"
proof (intro conjI)
  show "Limit (message_params tenant filters messageSort (Some pg)) = Some (L * length filters + 1)"
    using assms(2,3) by (rule message_params_Limit)
  show "filters \<noteq> [] \<longrightarrow> L < L * length filters + 1"
  proof
    assume "filters \<noteq> []"
    then obtain n where "length filters = Suc n" by (cases filters) simp_all
    then show "L < L * length filters + 1" by simp
  qed
  from query_Inr[OF assms(1)] obtain data where
    d: "backend_query KeyS (fst (extractSortProperties messageSort) @ ''Sort'')
            (message_params tenant filters messageSort (Some pg)) tbl = Inr data"
    and p: "processPaginationResults (Items data) (fst (extractSortProperties messageSort)) (Some L) = Inr (messages, cur)"
    using assms(2) by auto
  show "\<exists>data. backend_query KeyS (fst (extractSortProperties messageSort) @ ''Sort'')
                    (message_params tenant filters messageSort (Some pg)) tbl = Inr data \<and>
                  messages = take L (Items data) \<and>
                  (L < length (Items data) \<longrightarrow>
                     cur = Some (message_cursor (fst (extractSortProperties messageSort)) (last messages))) \<and>
                  (length (Items data) \<le> L \<longrightarrow> cur = None)"
    using d processPaginationResults_Inr[OF p] by blast
  show "Limit (event_params tenant filters start) = None" by (rule event_params_Limit)
  show "\<forall>c events cur' log_tbl. queryEvents tenant filters c fail_at log_tbl = (Inr (events, cur'), []) \<longrightarrow>
            (\<exists>data. backend_query KeyN ''watermark''
                       (event_params tenant filters (case c of Some (Cursor k) \<Rightarrow> Some k | _ \<Rightarrow> None)) log_tbl = Inr data \<and>
                     events = map event_id (Items data) \<and>
                     (Items data \<noteq> [] \<longrightarrow> cur' = Some (Cursor (event_cursor (last (Items data))))) \<and>
                     (Items data = [] \<longrightarrow> cur' = c))"
    using queryEvents_quiet by blast
qed


theorem paging_as_coded_witness:
  "limit \<lparr>limit = Some 1, cursor = None\<rparr> = Some 1 \<and> (0::nat) < 1 \<and>
   cids (query ''alice'' any_flag by_dateCreated (page 1 None) None three_messages) = Inr ([''m1''], Some ''m1'') \<and>
   Limit (message_params ''alice'' any_flag by_dateCreated (page 1 None)) = Some (1 * length any_flag + 1)"
proof -
  let ?Q = "query ''alice'' any_flag by_dateCreated (page 1 None) None three_messages"
  have c: "cids ?Q = Inr ([''m1''], Some ''m1'')" by code_simp
  then obtain messages cur where "fst ?Q = Inr (messages, cur)"
    by (cases "fst ?Q") (auto simp: cids_def)
  then have q: "query ''alice'' any_flag by_dateCreated (Some \<lparr>limit = Some 1, cursor = None\<rparr>) None three_messages
                  = (Inr (messages, cur), snd ?Q)"
    by (simp add: prod_eq_iff page_def)
  have "Limit (message_params ''alice'' any_flag by_dateCreated (page 1 None)) = Some (1 * length any_flag + 1)"
    using paging_as_coded[OF q, of 1] by (simp add: page_def)
  with c show ?thesis by simp
qed

text \<open>C3 as written fails for the event log: its request has no limit, and a
  cursor comes back although the two events returned are all there is.\<close>

theorem event_log_unbounded_counterexample:
  "Limit (event_params ''alice'' [] None) = None \<and>
   event_ids (queryEvents ''alice'' [] None None two_events) = [''e1'', ''e2''] \<and>
   (case fst (queryEvents ''alice'' [] None None two_events) of
      Inr (events, Some (Cursor k)) \<Rightarrow> k ''messageCid'' = Some (S ''e2'')
    | _ \<Rightarrow> False)"
  by code_simp


text \<open>
  C6 at two queries over three stored messages, sorted by creation date. Without filter
  groups and with a limit of 2 the request carries \<^verbatim>\<open>Limit = 2 * 0 + 1\<close>: one message
  comes back and no cursor, so the other two are never reached. With the filter
  \<^verbatim>\<open>[{ flag: 'yes' }]\<close>, which the second message fails, and a limit of 1, the request
  reads two rows, one passes, and \<^verbatim>\<open>data.Items[data.ScannedCount - 1].S\<close> throws: the
  query rejects instead of returning the first of the two matching messages with a cursor.
\<close>

theorem pagination_stops_early:
  "cids (query ''alice'' [] by_dateCreated None None three_messages) = Inr ([''m1'', ''m2'', ''m3''], None) \<and>
   cids (query ''alice'' [] by_dateCreated (page 2 None) None three_messages) = Inr ([''m1''], None) \<and>
   cids (query ''alice'' flagged by_dateCreated None None three_messages) = Inr ([''m1'', ''m3''], None) \<and>
   cids (query ''alice'' flagged by_dateCreated (page 1 None) None three_messages) = Inl TypeError"
  by code_simp

section \<open>Composite sort keys\<close>

lemma add_sort_with:
  "Item ''messageCid'' = Some (S c) \<Longrightarrow> add_sort a Item = Some (with_sort c a Item)"
  by (cases "Item a"; cases "the (Item a)")
     (simp_all add: add_sort_def with_sort_def shown_def js_S_def)

lemma with_sort_cid:
  "Item ''messageCid'' = Some (S c) \<Longrightarrow> a \<in> sort_names \<Longrightarrow> with_sort c a Item ''messageCid'' = Some (S c)"
  by (auto simp: with_sort_def sort_names_def split: option.splits)

lemma put_input_plain:
  assumes "(tags ++ idx) ''tenant'' = None" "(tags ++ idx) ''messageCid'' = None"
  shows "put_input t c bytes ed tags idx =
           Some ((\<lambda>Item. case ed of None \<Rightarrow> Item | Some d \<Rightarrow> Item(''encodedData'' \<mapsto> S d))
             (with_sort c ''messageTimestamp'' (with_sort c ''datePublished'' (with_sort c ''dateCreated''
               ([''tenant'' \<mapsto> S t, ''messageCid'' \<mapsto> S c, ''encodedMessageBytes'' \<mapsto> B bytes] ++ tags ++ idx)))))"
proof -
  let ?base = "[''tenant'' \<mapsto> S t, ''messageCid'' \<mapsto> S c, ''encodedMessageBytes'' \<mapsto> B bytes] ++ tags ++ idx"
  have b: "?base ''messageCid'' = Some (S c)"
    using assms(2) by (auto simp: map_add_def split: option.splits)
  have s1: "with_sort c ''dateCreated'' ?base ''messageCid'' = Some (S c)"
    by (rule with_sort_cid[where Item = "?base", OF b]) (simp add: sort_names_def)
  have s2: "with_sort c ''datePublished'' (with_sort c ''dateCreated'' ?base) ''messageCid'' = Some (S c)"
    by (rule with_sort_cid[where Item = "with_sort c ''dateCreated'' ?base", OF s1]) (simp add: sort_names_def)
  have a1: "add_sort ''dateCreated'' ?base = Some (with_sort c ''dateCreated'' ?base)"
    using b by (rule add_sort_with[where Item = "?base"])
  have a2: "add_sort ''datePublished'' (with_sort c ''dateCreated'' ?base)
              = Some (with_sort c ''datePublished'' (with_sort c ''dateCreated'' ?base))"
    using s1 by (rule add_sort_with[where Item = "with_sort c ''dateCreated'' ?base"])
  have a3: "add_sort ''messageTimestamp'' (with_sort c ''datePublished'' (with_sort c ''dateCreated'' ?base))
              = Some (with_sort c ''messageTimestamp'' (with_sort c ''datePublished'' (with_sort c ''dateCreated'' ?base)))"
    using s2 by (rule add_sort_with[where Item = "with_sort c ''datePublished'' (with_sort c ''dateCreated'' ?base)"])
  show ?thesis
    unfolding put_input_def by (simp only: a1 a2 a3 Option.bind.simps)
qed


lemma put_input_stored:
  assumes "(tags ++ idx) ''tenant'' = None" "(tags ++ idx) ''messageCid'' = None"
  shows "put_input t c bytes ed tags idx = Some (stored_item t c bytes ed (tags ++ idx))"
  using put_input_plain[OF assms, of t c bytes ed]
  by (simp add: stored_item_def Let_def map_add_assoc)

lemma with_sort_apply:
  "with_sort c a Item x =
     (case Item a of None \<Rightarrow> Item x | Some v \<Rightarrow> if x = a @ ''Sort'' then Some (S (shown v @ c)) else Item x)"
  by (simp add: with_sort_def split: option.split)

lemma base_apply:
  "([''tenant'' \<mapsto> S t, ''messageCid'' \<mapsto> S c, ''encodedMessageBytes'' \<mapsto> B bytes] ++ ti) x =
     (case ti x of Some v \<Rightarrow> Some v
      | None \<Rightarrow> if x = ''encodedMessageBytes'' then Some (B bytes)
                else if x = ''messageCid'' then Some (S c)
                else if x = ''tenant'' then Some (S t) else None)"
  by (simp add: map_add_def split: option.split)

lemma stored_item_apply:
  "stored_item t c bytes ed ti x =
     (let base = [''tenant'' \<mapsto> S t, ''messageCid'' \<mapsto> S c, ''encodedMessageBytes'' \<mapsto> B bytes] ++ ti;
          i1 = with_sort c ''dateCreated'' base;
          i2 = with_sort c ''datePublished'' i1;
          i3 = with_sort c ''messageTimestamp'' i2
      in case ed of None \<Rightarrow> i3 x | Some d \<Rightarrow> if x = ''encodedData'' then Some (S d) else i3 x)"
  by (simp add: stored_item_def Let_def split: option.split)

lemma stored_item_key:
  assumes "ti ''tenant'' = None" "ti ''messageCid'' = None"
  shows "stored_item t c bytes ed ti ''tenant'' = Some (S t)"
    and "stored_item t c bytes ed ti ''messageCid'' = Some (S c)"
  using assms
  by (simp_all add: stored_item_apply Let_def with_sort_apply base_apply split: option.split)

lemma stored_item_source:
  assumes "a \<in> sort_names"
  shows "stored_item t c bytes ed ti a = ti a"
proof -
  consider "a = ''dateCreated''" | "a = ''datePublished''" | "a = ''messageTimestamp''"
    using assms by (auto simp: sort_names_def)
  then show ?thesis
    by cases (simp_all add: stored_item_apply Let_def with_sort_apply base_apply split: option.split)
qed

lemma stored_item_sort:
  assumes "a \<in> sort_names"
  shows "stored_item t c bytes ed ti (a @ ''Sort'') =
           (case ti a of None \<Rightarrow> ti (a @ ''Sort'') | Some v \<Rightarrow> Some (S (shown v @ c)))"
proof -
  consider "a = ''dateCreated''" | "a = ''datePublished''" | "a = ''messageTimestamp''"
    using assms by (auto simp: sort_names_def)
  then show ?thesis
    by cases (simp_all add: stored_item_apply Let_def with_sort_apply base_apply split: option.split)
qed

lemma do_put_plain:
  assumes "plain_put c"
  shows "do_put c tbl =
           (if pc_fail_at c = Some 0 then tbl
            else AList.update (pc_tenant c, pc_cid c)
                   (stored_item (pc_tenant c) (pc_cid c) (pc_bytes c) (pc_encodedData c) (pc_tags c ++ pc_indexes c)) tbl)"
  using assms
  by (simp add: do_put_def put_def put_input_stored put_item_def key_of_def stored_item_key plain_put_def)

lemma set_update_cases: "x \<in> set (AList.update k v al) \<Longrightarrow> x = (k, v) \<or> x \<in> set al"
  by (induction al) (auto split: if_splits)

lemma msg_inv_do_put:
  assumes inv: "msg_inv tbl" and pc: "plain_put c"
  shows "msg_inv (do_put c tbl)"
proof (cases "pc_fail_at c = Some 0")
  case True
  then show ?thesis using inv by (simp add: do_put_plain[OF pc])
next
  case False
  let ?k = "(pc_tenant c, pc_cid c)"
  let ?it = "stored_item (pc_tenant c) (pc_cid c) (pc_bytes c) (pc_encodedData c) (pc_tags c ++ pc_indexes c)"
  have eq: "do_put c tbl = AList.update ?k ?it tbl" using False by (simp add: do_put_plain[OF pc])
  have d: "distinct (map fst (AList.update ?k ?it tbl))"
    using inv by (simp add: msg_inv_def distinct_update)
  have new_cid: "?it ''messageCid'' = Some (S (pc_cid c))"
    using pc by (simp add: stored_item_key plain_put_def)
  have new_sort: "?it (a @ ''Sort'') = Some (S (shown v @ pc_cid c))" if "a \<in> sort_names" "?it a = Some v" for a v
    using that by (simp add: stored_item_sort stored_item_source)
  show ?thesis
    unfolding msg_inv_def eq
  proof (intro conjI ballI allI impI)
    show "distinct (map fst (AList.update ?k ?it tbl))" by (rule d)
  next
    fix row assume "row \<in> set (AList.update ?k ?it tbl)"
    then consider "row = (?k, ?it)" | "row \<in> set tbl" using set_update_cases by fastforce
    then show "snd row ''messageCid'' = Some (S (snd (fst row)))"
    proof cases
      case 1 then show ?thesis using new_cid by simp
    next
      case 2 then show ?thesis using inv by (simp add: msg_inv_def)
    qed
  next
    fix row a v assume r: "row \<in> set (AList.update ?k ?it tbl)" and a: "a \<in> sort_names" and v: "snd row a = Some v"
    from r consider "row = (?k, ?it)" | "row \<in> set tbl" using set_update_cases by fastforce
    then show "snd row (a @ ''Sort'') = Some (S (shown v @ snd (fst row)))"
    proof cases
      case 1 then show ?thesis using new_sort[OF a] v by simp
    next
      case 2 then show ?thesis using inv a v by (simp add: msg_inv_def)
    qed
  qed
qed

lemma run_puts_snoc: "run_puts (calls @ [c]) tbl = do_put c (run_puts calls tbl)"
  by (simp add: run_puts_def)

lemma msg_inv_run: "list_all plain_put calls \<Longrightarrow> msg_inv (run_puts calls [])"
proof (induction calls rule: rev_induct)
  case Nil
  then show ?case by (simp add: run_puts_def msg_inv_def)
next
  case (snoc c calls)
  then show ?case by (simp add: run_puts_snoc msg_inv_do_put)
qed

lemma index_rows_set:
  assumes "r \<in> set (index_rows ty name tenant tbl)"
  shows "\<exists>c s. ((tenant, c), snd r) \<in> set tbl \<and> index_key ty name (snd r) = Some s \<and> fst r = (s, c)"
proof -
  from assms have "r \<in> set (List.map_filter
          (\<lambda>row. if fst (fst row) = tenant
                  then map_option (\<lambda>k. ((k, snd (fst row)), snd row)) (index_key ty name (snd row))
                  else None) tbl)"
    by (simp add: index_rows_def)
  then show ?thesis
    by (induction tbl) (auto split: if_splits option.splits)
qed

lemma map_filter_cids:
  "r \<in> set (List.map_filter
          (\<lambda>row. if fst (fst row) = tenant
                  then map_option (\<lambda>k. ((k, snd (fst row)), snd row)) (index_key ty name (snd row))
                  else None) tbl) \<Longrightarrow> (tenant, snd (fst r)) \<in> fst ` set tbl"
  by (induction tbl) (auto split: if_splits option.splits simp: image_iff)

lemma index_rows_distinct:
  assumes "distinct (map fst tbl)"
  shows "distinct (map fst (index_rows ty name tenant tbl))"
proof -
  let ?f = "\<lambda>row. if fst (fst row) = tenant
                  then map_option (\<lambda>k. ((k, snd (fst row)), snd row)) (index_key ty name (snd row))
                  else None"
  have "distinct (map snd (map fst (List.map_filter ?f tbl)))"
    using assms
  proof (induction tbl)
    case Nil
    then show ?case by simp
  next
    case (Cons row tbl)
    have ih: "distinct (map snd (map fst (List.map_filter ?f tbl)))" using Cons by simp
    show ?case
    proof (cases "?f row")
      case None
      then show ?thesis using ih by simp
    next
      case (Some y)
      then have y: "fst (fst row) = tenant" "snd (fst y) = snd (fst row)"
        by (auto split: if_splits)
      have row: "fst row = (tenant, snd (fst row))" using y(1) by (simp add: prod_eq_iff)
      have "snd (fst y) \<notin> set (map snd (map fst (List.map_filter ?f tbl)))"
      proof
        assume "snd (fst y) \<in> set (map snd (map fst (List.map_filter ?f tbl)))"
        then obtain r where r: "r \<in> set (List.map_filter ?f tbl)" "snd (fst r) = snd (fst y)"
          by auto
        from map_filter_cids[OF r(1)] have "(tenant, snd (fst row)) \<in> fst ` set tbl"
          using r(2) y(2) by simp
        then have "fst row \<in> fst ` set tbl" using row by simp
        then show False using Cons.prems by simp
      qed
      then show ?thesis using ih Some by simp
    qed
  qed
  then have "distinct (map fst (List.map_filter ?f tbl))"
    using distinct_map[of snd "map fst (List.map_filter ?f tbl)"] by simp
  then show ?thesis
    by (simp add: index_rows_def distinct_map)
qed

lemma append_less_cancel: "v @ x < v @ y \<longleftrightarrow> x < (y::string)"
  by (induction v) simp_all

lemma index_key_S:
  "index_key KeyS name it = Some s \<Longrightarrow> \<exists>x. it name = Some (S x) \<and> s = (0, x)"
  by (auto simp: index_key_def split: option.splits attr.splits if_splits)

lemma rows_tie_break:
  assumes inv: "msg_inv tbl" and a: "a \<in> sort_names"
  shows "sorted_wrt (tie_break a) (map snd (index_rows KeyS (a @ ''Sort'') tenant tbl))"
proof -
  let ?rows = "index_rows KeyS (a @ ''Sort'') tenant tbl"
  have "sorted (map fst ?rows)" by (simp add: index_rows_def)
  moreover have "distinct (map fst ?rows)"
    using inv by (simp add: msg_inv_def index_rows_distinct)
  ultimately have "sorted_wrt (<) (map fst ?rows)" by (simp add: strict_sorted_iff)
  then have s: "sorted_wrt (\<lambda>r1 r2. fst r1 < fst r2) ?rows" by (simp add: sorted_wrt_map)
  have "sorted_wrt (\<lambda>r1 r2. tie_break a (snd r1) (snd r2)) ?rows"
  proof (rule sorted_wrt_mono_rel[OF _ s])
    fix r1 r2 assume r1: "r1 \<in> set ?rows" and r2: "r2 \<in> set ?rows" and lt: "fst r1 < fst r2"
    from index_rows_set[OF r1] obtain c1 s1 where
      m1: "((tenant, c1), snd r1) \<in> set tbl" and k1: "index_key KeyS (a @ ''Sort'') (snd r1) = Some s1"
      and p1: "fst r1 = (s1, c1)" by blast
    from index_rows_set[OF r2] obtain c2 s2 where
      m2: "((tenant, c2), snd r2) \<in> set tbl" and k2: "index_key KeyS (a @ ''Sort'') (snd r2) = Some s2"
      and p2: "fst r2 = (s2, c2)" by blast
    from index_key_S[OF k1] obtain x1 where x1: "snd r1 (a @ ''Sort'') = Some (S x1)" "s1 = (0, x1)" by blast
    from index_key_S[OF k2] obtain x2 where x2: "snd r2 (a @ ''Sort'') = Some (S x2)" "s2 = (0, x2)" by blast
    from inv m1 have e1: "snd r1 ''messageCid'' = Some (S c1)"
      and t1: "\<And>v. snd r1 a = Some v \<Longrightarrow> snd r1 (a @ ''Sort'') = Some (S (shown v @ c1))"
      using a unfolding msg_inv_def by force+
    from inv m2 have e2: "snd r2 ''messageCid'' = Some (S c2)"
      and t2: "\<And>v. snd r2 a = Some v \<Longrightarrow> snd r2 (a @ ''Sort'') = Some (S (shown v @ c2))"
      using a unfolding msg_inv_def by force+
    show "tie_break a (snd r1) (snd r2)"
      unfolding tie_break_def
    proof (intro allI impI)
      fix v assume v: "snd r1 a = Some v \<and> snd r2 a = Some v"
      then have "x1 = shown v @ c1" "x2 = shown v @ c2"
        using t1[of v] t2[of v] x1(1) x2(1) by simp_all
      then have "c1 < c2"
        using lt p1 p2 x1(2) x2(2) by (auto simp: append_less_cancel)
      then show "event_id (snd r1) < event_id (snd r2)"
        using e1 e2 by (simp add: event_id_def)
    qed
  qed
  then show ?thesis by (simp add: sorted_wrt_map)
qed

lemma backend_forward_sorted:
  assumes q: "backend_query ty name q tbl = Inr data"
    and fw: "ScanIndexForward q"
    and tn: "ExpressionAttributeValues q '':tenant'' = Some (S tenant)"
    and st: "sorted_wrt P (map snd (index_rows ty name tenant tbl))"
  shows "sorted_wrt P (Items data)"
proof -
  let ?rows = "index_rows ty name tenant tbl"
  let ?start = "case ExclusiveStartKey q of None \<Rightarrow> None | Some k \<Rightarrow> position_of ty name k"
  let ?rem = "after_start True ?start ?rows"
  let ?scanned = "case Limit q of None \<Rightarrow> ?rem | Some l \<Rightarrow> take l ?rem"
  have items: "Items data = filter (matches (ExpressionAttributeValues q) (FilterExpression q)) (map snd ?scanned)"
    using q fw tn by (auto simp: backend_query_def Let_def split: if_splits)
  from st have "sorted_wrt (\<lambda>x y. P (snd x) (snd y)) ?rows" by (simp add: sorted_wrt_map)
  then have "sorted_wrt (\<lambda>x y. P (snd x) (snd y)) ?rem"
    by (auto simp: after_start_def sorted_wrt_filter split: option.splits)
  then have "sorted_wrt (\<lambda>x y. P (snd x) (snd y)) ?scanned"
    by (auto simp: sorted_wrt_take split: option.splits)
  then have "sorted_wrt P (map snd ?scanned)" by (simp add: sorted_wrt_map)
  then show ?thesis unfolding items by (rule sorted_wrt_filter)
qed

lemma message_params_facts:
  "ExpressionAttributeValues (message_params tenant filters messageSort pagination) '':tenant'' = Some (S tenant)"
  "ScanIndexForward (message_params tenant filters messageSort pagination)
     = (snd (extractSortProperties messageSort) = Ascending)"
  by (simp_all add: message_params_def cursorInputSort_def Let_def)

lemma extractSortProperties_names: "fst (extractSortProperties messageSort) \<in> sort_names"
  by (simp add: extractSortProperties_def sort_names_def split: option.splits)

lemma processPaginationResults_sorted:
  assumes "processPaginationResults results sp lim = Inr (messages, cur)" "sorted_wrt P results"
  shows "sorted_wrt P messages"
  using assms
  by (auto simp: processPaginationResults_def Let_def sorted_wrt_take split: if_splits option.splits)

lemma query_tie_break:
  assumes inv: "msg_inv tbl"
    and q: "query tenant filters messageSort pagination fail_at tbl = (Inr (messages, cur), log)"
    and asc: "extractSortProperties messageSort = (a, Ascending)"
  shows "sorted_wrt (tie_break a) messages"
proof -
  have a: "a \<in> sort_names" using extractSortProperties_names[of messageSort] asc by simp
  from query_Inr[OF q] asc obtain data where
    d: "backend_query KeyS (a @ ''Sort'') (message_params tenant filters messageSort pagination) tbl = Inr data"
    and p: "processPaginationResults (Items data) a (Option.bind pagination limit) = Inr (messages, cur)"
    by auto
  have "sorted_wrt (tie_break a) (Items data)"
    using d
  proof (rule backend_forward_sorted)
    show "ScanIndexForward (message_params tenant filters messageSort pagination)"
      using asc by (simp add: message_params_facts)
    show "ExpressionAttributeValues (message_params tenant filters messageSort pagination) '':tenant'' = Some (S tenant)"
      by (rule message_params_facts)
    show "sorted_wrt (tie_break a) (map snd (index_rows KeyS (a @ ''Sort'') tenant tbl))"
      using inv a by (rule rows_tie_break)
  qed
  with p show ?thesis by (rule processPaginationResults_sorted)
qed

text \<open>
  C2, as the code has it. Take any history of plain puts from the empty store, ending in
  a put that goes through. The item it stores carries, for each of \<^verbatim>\<open>dateCreated\<close>,
  \<^verbatim>\<open>datePublished\<close> and \<^verbatim>\<open>messageTimestamp\<close> that the indexes give as a string,
  the attribute \<^verbatim>\<open><name>Sort\<close> with that string followed at once by the content id;
  where the indexes do not give the attribute, \<^verbatim>\<open>put\<close> writes no \<^verbatim>\<open><name>Sort\<close>
  (the item has what the indexes themselves say under that name, normally nothing). And in
  the answer of a query sorted ascending by one of the three, two messages with the same
  value of it stand in ascending order of their content ids.
\<close>

theorem composite_sort_key:
  assumes "list_all plain_put calls" and "plain_put c" and "pc_fail_at c = None"
    and "extractSortProperties messageSort = (a, Ascending)"
    and "query tenant filters messageSort pagination fail_at (run_puts (calls @ [c]) []) = (Inr (messages, cur), log)"
  shows "(\<exists>it. map_of (run_puts (calls @ [c]) []) (pc_tenant c, pc_cid c) = Some it \<and>
            (\<forall>n \<in> sort_names.
               (\<forall>v. (pc_tags c ++ pc_indexes c) n = Some (S v) \<longrightarrow> it (n @ ''Sort'') = Some (S (v @ pc_cid c))) \<and>
               ((pc_tags c ++ pc_indexes c) n = None \<longrightarrow> it (n @ ''Sort'') = (pc_tags c ++ pc_indexes c) (n @ ''Sort'')))) \<and>
         (\<forall>i j v. i < j \<and> j < length messages \<and> (messages ! i) a = Some v \<and> (messages ! j) a = Some v
            \<longrightarrow> event_id (messages ! i) < event_id (messages ! j))"
proof (intro conjI)
  let ?it = "stored_item (pc_tenant c) (pc_cid c) (pc_bytes c) (pc_encodedData c) (pc_tags c ++ pc_indexes c)"
  have m: "map_of (run_puts (calls @ [c]) []) (pc_tenant c, pc_cid c) = Some ?it"
    using assms(2,3) by (simp add: run_puts_snoc do_put_plain update_conv')
  have gen: "\<forall>n \<in> sort_names.
               (\<forall>v. ti n = Some (S v) \<longrightarrow>
                  stored_item (pc_tenant c) (pc_cid c) (pc_bytes c) (pc_encodedData c) ti (n @ ''Sort'')
                    = Some (S (v @ pc_cid c))) \<and>
               (ti n = None \<longrightarrow>
                  stored_item (pc_tenant c) (pc_cid c) (pc_bytes c) (pc_encodedData c) ti (n @ ''Sort'')
                    = ti (n @ ''Sort''))" for ti
    by (simp add: stored_item_sort shown_def)
  show "\<exists>it. map_of (run_puts (calls @ [c]) []) (pc_tenant c, pc_cid c) = Some it \<and>
            (\<forall>n \<in> sort_names.
               (\<forall>v. (pc_tags c ++ pc_indexes c) n = Some (S v) \<longrightarrow> it (n @ ''Sort'') = Some (S (v @ pc_cid c))) \<and>
               ((pc_tags c ++ pc_indexes c) n = None \<longrightarrow> it (n @ ''Sort'') = (pc_tags c ++ pc_indexes c) (n @ ''Sort'')))"
    by (rule exI[where x = ?it], rule conjI, rule m, rule gen)
next
  have inv: "msg_inv (run_puts (calls @ [c]) [])"
    using assms(1,2) by (intro msg_inv_run) simp
  have s: "sorted_wrt (tie_break a) messages"
    using inv assms(5,4) by (rule query_tie_break)
  show "\<forall>i j v. i < j \<and> j < length messages \<and> (messages ! i) a = Some v \<and> (messages ! j) a = Some v
            \<longrightarrow> event_id (messages ! i) < event_id (messages ! j)"
  proof (intro allI impI)
    fix i j v assume h: "i < j \<and> j < length messages \<and> (messages ! i) a = Some v \<and> (messages ! j) a = Some v"
    then have "tie_break a (messages ! i) (messages ! j)"
      using sorted_wrt_nth_less[OF s, of i j] by simp
    then show "event_id (messages ! i) < event_id (messages ! j)"
      using h unfolding tie_break_def by blast
  qed
qed

theorem composite_sort_key_witness:
  "list_all plain_put [dated ''bbb'' ''2024-01-01''] \<and> plain_put (dated ''aaa'' ''2024-01-01'') \<and>
   pc_fail_at (dated ''aaa'' ''2024-01-01'') = None \<and>
   extractSortProperties by_dateCreated = (''dateCreated'', Ascending) \<and>
   cids (query ''alice'' [] by_dateCreated None None
           (run_puts ([dated ''bbb'' ''2024-01-01''] @ [dated ''aaa'' ''2024-01-01'']) []))
     = Inr ([''aaa'', ''bbb''], None) \<and>
   map_of (run_puts ([dated ''bbb'' ''2024-01-01''] @ [dated ''aaa'' ''2024-01-01'']) []) (''alice'', ''aaa'')
     \<noteq> None \<and>
   ''aaa'' < ''bbb''"
proof -
  let ?tbl = "run_puts ([dated ''bbb'' ''2024-01-01''] @ [dated ''aaa'' ''2024-01-01'']) []"
  let ?Q = "query ''alice'' [] by_dateCreated None None ?tbl"
  have h1: "list_all plain_put [dated ''bbb'' ''2024-01-01'']" by (simp add: plain_put_def dated_def)
  have h2: "plain_put (dated ''aaa'' ''2024-01-01'')" by (simp add: plain_put_def dated_def)
  have h3: "pc_fail_at (dated ''aaa'' ''2024-01-01'') = None" by (simp add: dated_def)
  have h4: "extractSortProperties by_dateCreated = (''dateCreated'', Ascending)"
    by (simp add: extractSortProperties_def by_dateCreated_def)
  have c: "cids ?Q = Inr ([''aaa'', ''bbb''], None)" by code_simp
  then obtain messages cur where r: "fst ?Q = Inr (messages, cur)"
    by (cases "fst ?Q") (auto simp: cids_def)
  then have q: "?Q = (Inr (messages, cur), snd ?Q)" by (simp add: prod_eq_iff)
  have ids: "map event_id messages = [''aaa'', ''bbb'']" using c r by (simp add: cids_def)
  then have len: "length messages = 2" by (metis length_map length_Cons list.size(3) numeral_2_eq_2)
  have e0: "event_id (messages ! 0) = ''aaa''" and e1: "event_id (messages ! 1) = ''bbb''"
    using ids len by (metis nth_map nth_Cons_0 zero_less_numeral, metis nth_map nth_Cons_0 nth_Cons_Suc One_nat_def one_less_numeral_iff semiring_norm(76))
  have "(case fst ?Q of Inr p \<Rightarrow> (fst p ! 0) ''dateCreated'' = Some (S ''2024-01-01'') \<and>
                                   (fst p ! 1) ''dateCreated'' = Some (S ''2024-01-01'')
         | Inl e \<Rightarrow> False)" by code_simp
  then have d: "(messages ! 0) ''dateCreated'' = Some (S ''2024-01-01'')"
               "(messages ! 1) ''dateCreated'' = Some (S ''2024-01-01'')"
    using r by simp_all
  note t = composite_sort_key[OF h1 h2 h3 h4 q]
  from t have m: "map_of ?tbl (''alice'', ''aaa'') \<noteq> None" by (auto simp: dated_def)
  from t have "\<forall>i j v. i < j \<and> j < length messages \<and> (messages ! i) ''dateCreated'' = Some v \<and>
                 (messages ! j) ''dateCreated'' = Some v \<longrightarrow> event_id (messages ! i) < event_id (messages ! j)"
    by (rule conjunct2)
  then have "event_id (messages ! 0) < event_id (messages ! 1)"
    using d len by (elim allE[where x = 0] allE[where x = 1] allE[where x = "S ''2024-01-01''"]) simp
  then have lt: "''aaa'' < ''bbb''" using e0 e1 by simp
  show ?thesis using h1 h2 h3 h4 c m lt by (intro conjI)
qed

text \<open>C2 as written fails where the sort attribute is not a string: \<^verbatim>\<open>put\<close> reads the
  value through \<^verbatim>\<open>.S\<close>, so for \<^verbatim>\<open>dateCreated\<close> = 5 and the content id
  \<^verbatim>\<open>m1\<close> it stores \<^verbatim>\<open>dateCreatedSort\<close> = \<^verbatim>\<open>undefinedm1\<close>, which is not the
  value followed by the content id.\<close>

theorem numeric_sort_counterexample:
  "plain_put numeric_date \<and>
   attr_at (run_puts [numeric_date] []) (''alice'', ''m1'') ''dateCreated'' = Some (N 5) \<and>
   attr_at (run_puts [numeric_date] []) (''alice'', ''m1'') ''dateCreatedSort'' = Some (S ''undefinedm1'') \<and>
   number_toString 5 @ ''m1'' = ''5m1'' \<and>
   attr_at (run_puts [numeric_date] []) (''alice'', ''m1'') ''dateCreatedSort''
     \<noteq> Some (S (number_toString 5 @ ''m1''))"
  by code_simp

section \<open>Leases of the task store\<close>

lemma task_rowD:
  assumes "task_row (k, it)"
  shows "it ''taskid'' = Some (S k)" "it ''tenantid'' = Some (S ''default'')"
    "\<exists>n. it ''timeout'' = Some (N n)" "\<exists>p. it ''task'' = Some (S p)" "\<exists>r. it ''retryCount'' = Some (S r)"
  using assms by (simp_all add: task_row_def)

lemma task_row_regrabbed: "task_row (k, it) \<Longrightarrow> task_row (k, regrabbed nt it)"
  by (simp add: task_row_def regrabbed_def)

lemma task_inv_update:
  assumes "task_inv tbl" "task_row (k, it)"
  shows "task_inv (AList.update k it tbl)"
proof -
  have "\<forall>row \<in> set (AList.update k it tbl). task_row row"
    using assms set_update_cases[of _ k it tbl] by (auto simp: task_inv_def list_all_iff)
  then show ?thesis using assms(1) by (simp add: task_inv_def list_all_iff distinct_update)
qed

lemma set_delete_subset: "set (AList.delete k al) \<subseteq> set al"
  by (auto simp: AList.delete_eq)

lemma task_inv_delete:
  assumes "task_inv tbl"
  shows "task_inv (AList.delete k tbl)"
  using assms set_delete_subset[of k tbl]
  by (auto simp: task_inv_def list_all_iff distinct_delete)

lemma task_inv_regrab:
  assumes "task_inv tbl" "\<forall>it \<in> set items. \<forall>k. it ''taskid'' = Some (S k) \<longrightarrow> task_row (k, it)"
  shows "task_inv (snd (regrab f n nt items tbl))"
  using assms
proof (induction items arbitrary: tbl n)
  case Nil
  then show ?case by simp
next
  case (Cons it items)
  show ?case
  proof (cases "it ''taskid''")
    case None
    then show ?thesis using Cons.prems by simp
  next
    case (Some a)
    show ?thesis
    proof (cases a)
      case (S k)
      have row: "task_row (k, regrabbed nt it)"
        using Cons.prems(2) Some S by (simp add: task_row_regrabbed)
      have inv': "task_inv (AList.update k (regrabbed nt it) (AList.delete k tbl))"
        using Cons.prems(1) row by (simp add: task_inv_update task_inv_delete)
      have rest: "\<forall>it \<in> set items. \<forall>k. it ''taskid'' = Some (S k) \<longrightarrow> task_row (k, it)"
        using Cons.prems(2) by simp
      show ?thesis
        using Some S Cons.prems(1) Cons.IH[OF inv' rest]
        by (simp add: task_inv_delete)
    next
      case (N x)
      then show ?thesis using Some Cons by simp
    next
      case (BOOL x)
      then show ?thesis using Some Cons by simp
    next
      case (B x)
      then show ?thesis using Some Cons by simp
    qed
  qed
qed

lemma expired_rows_from:
  assumes "r \<in> set (expired_rows now tbl)"
  shows "fst r \<le> now \<and> (\<exists>k. (k, snd r) \<in> set tbl) \<and> timeout_key (snd r) = Some (fst r)"
proof -
  from assms have le: "fst r \<le> now"
    and m: "r \<in> set (List.map_filter (\<lambda>row. map_option (\<lambda>n. (n, snd row)) (timeout_key (snd row))) tbl)"
    by (simp_all add: expired_rows_def)
  from m have "(\<exists>k. (k, snd r) \<in> set tbl) \<and> timeout_key (snd r) = Some (fst r)"
    by (induction tbl) (auto split: option.splits)
  with le show ?thesis by simp
qed

lemma found_rows:
  assumes inv: "task_inv tbl" and "it \<in> set (map snd (take count (expired_rows now tbl)))"
  shows "\<exists>k. it ''taskid'' = Some (S k) \<and> task_row (k, it) \<and> (k, it) \<in> set tbl"
proof -
  from assms(2) obtain r where "r \<in> set (expired_rows now tbl)" "it = snd r"
    by (auto dest: in_set_takeD)
  with expired_rows_from[of r now tbl] obtain k where k: "(k, it) \<in> set tbl" by auto
  then have "task_row (k, it)" using inv by (auto simp: task_inv_def list_all_iff)
  then show ?thesis using k by (auto simp: task_row_def)
qed

lemma task_inv_grab:
  assumes inv: "task_inv tbl"
  shows "task_inv (fst (snd (grab count now f tbl)))"
proof -
  let ?found = "map snd (take count (expired_rows now tbl))"
  have "\<forall>it \<in> set ?found. \<forall>k. it ''taskid'' = Some (S k) \<longrightarrow> task_row (k, it)"
    using found_rows[OF inv] by fastforce
  from task_inv_regrab[OF inv this]
  have "task_inv (snd (regrab f 1 (now + taskTimeoutInSeconds * 1000) ?found tbl))" .
  then show ?thesis using inv
    by (auto simp: grab_def Let_def split: prod.splits option.splits sum.splits)
qed

lemma task_inv_do: "task_inv tbl \<Longrightarrow> task_inv (do_task_op op tbl)"
proof (induction op tbl rule: do_task_op.induct)
  case (1 task taskid secs now f tbl)
  have "task_row (taskid, [''taskid'' \<mapsto> S taskid, ''tenantid'' \<mapsto> S ''default'',
               ''timeout'' \<mapsto> N (now + secs * 1000), ''task'' \<mapsto> S task,
               ''retryCount'' \<mapsto> S (number_toString 0)])"
    by (simp add: task_row_def)
  then show ?case using 1 by (simp add: register_def task_inv_update)
next
  case (2 count now f tbl)
  then show ?case by (simp add: task_inv_grab)
next
  case (3 taskId secs now f tbl)
  show ?case
  proof (cases "map_of tbl taskId")
    case None
    then show ?thesis using 3 by (simp add: extend_def)
  next
    case (Some it)
    then have "(taskId, it) \<in> set tbl" by (rule map_of_SomeD)
    then have "task_row (taskId, it)" using 3 by (auto simp: task_inv_def list_all_iff)
    then have "task_row (taskId, regrabbed (now + secs * 1000) it)" by (rule task_row_regrabbed)
    then show ?thesis using 3 Some by (simp add: extend_def task_inv_update)
  qed
next
  case (4 taskId f tbl)
  then show ?case by (simp add: delete_task_def task_inv_delete)
qed

lemma task_inv_run: "task_inv (run_tasks ops [])"
proof (induction ops rule: rev_induct)
  case Nil
  then show ?case by (simp add: run_tasks_def task_inv_def)
next
  case (snoc op ops)
  then show ?case by (simp add: run_tasks_def task_inv_do)
qed

lemma returned_task_row:
  assumes "task_row (k, it)"
  shows "returned_task nt it = Inr (grabbed nt it)" "task_id (grabbed nt it) = k"
    "retryCount (grabbed nt it) = 0" "timeout (grabbed nt it) = nt" "id_of it = k"
  using assms
  by (auto simp: task_row_def returned_task_def grabbed_def id_of_def js_S_def parse_N_def)

lemma collect_map: "(\<forall>x \<in> set xs. f x = Inr (g x)) \<Longrightarrow> collect (map f xs) = Inr (map g xs)"
  by (induction xs) simp_all

lemma regrab_None:
  "(\<forall>it \<in> set items. \<exists>k. it ''taskid'' = Some (S k)) \<Longrightarrow> fst (regrab None n nt items tbl) = None"
  by (induction items arbitrary: tbl n) auto

lemma regrab_map_of:
  assumes "distinct (map id_of items)" "\<forall>it \<in> set items. \<exists>k. it ''taskid'' = Some (S k)"
  shows "map_of (snd (regrab None n nt items tbl)) k =
           (case find (\<lambda>it. id_of it = k) items of
              Some it \<Rightarrow> Some (regrabbed nt it)
            | None \<Rightarrow> map_of tbl k)"
  using assms
proof (induction items arbitrary: tbl n)
  case Nil
  then show ?case by simp
next
  case (Cons it items)
  from Cons.prems(2) obtain k0 where k0: "it ''taskid'' = Some (S k0)" by auto
  then have id0: "id_of it = k0" by (simp add: id_of_def)
  let ?tbl1 = "AList.update k0 (regrabbed nt it) (AList.delete k0 tbl)"
  have step: "regrab None n nt (it # items) tbl = regrab None (n + 2) nt items ?tbl1"
    using k0 by simp
  have d: "distinct (map id_of items)" and rest: "\<forall>it \<in> set items. \<exists>k. it ''taskid'' = Some (S k)"
    using Cons.prems by simp_all
  have notin: "k0 \<notin> id_of ` set items" using Cons.prems(1) id0 by auto
  have ih: "map_of (snd (regrab None (n + 2) nt items ?tbl1)) k =
           (case find (\<lambda>it. id_of it = k) items of
              Some it \<Rightarrow> Some (regrabbed nt it)
            | None \<Rightarrow> map_of ?tbl1 k)"
    by (rule Cons.IH[OF d rest])
  show ?case
  proof (cases "k = k0")
    case True
    have "find (\<lambda>it. id_of it = k0) items = None"
      using notin by (auto simp: find_None_iff)
    then show ?thesis unfolding step using True ih id0 by (simp add: update_conv')
  next
    case False
    then have m: "map_of ?tbl1 k = map_of tbl k" by (simp add: update_conv' delete_conv')
    show ?thesis unfolding step using ih id0 False by (simp add: m split: option.split)
  qed
qed

lemma distinct_map_sort_key: "distinct (map f (sort_key g xs)) = distinct (map f xs)"
  by (simp add: distinct_map)

lemma rows_ids:
  assumes "list_all task_row tbl"
  shows "map (\<lambda>r. id_of (snd r))
           (List.map_filter (\<lambda>row. map_option (\<lambda>n. (n, snd row)) (timeout_key (snd row))) tbl)
         = map fst tbl"
  using assms
proof (induction tbl)
  case Nil
  then show ?case by simp
next
  case (Cons row tbl)
  then have r: "task_row (fst row, snd row)" by simp
  from task_rowD(3)[OF r] obtain n where "snd row ''timeout'' = Some (N n)" by blast
  then have "timeout_key (snd row) = Some n"
    using task_rowD(2)[OF r] by (simp add: timeout_key_def)
  then show ?case using Cons returned_task_row(5)[OF r] by simp
qed

lemma expired_ids_distinct:
  assumes "task_inv tbl"
  shows "distinct (map id_of (map snd (take count (expired_rows now tbl))))"
proof -
  let ?L = "List.map_filter (\<lambda>row. map_option (\<lambda>n. (n, snd row)) (timeout_key (snd row))) tbl"
  have "distinct (map (\<lambda>r. id_of (snd r)) ?L)"
    using assms by (simp add: rows_ids task_inv_def)
  then have "distinct (map (\<lambda>r. id_of (snd r)) (sort_key fst ?L))"
    by (simp only: distinct_map_sort_key)
  then have "distinct (map (\<lambda>r. id_of (snd r)) (expired_rows now tbl))"
    unfolding expired_rows_def by (rule distinct_map_filter)
  then have "distinct (take count (map (\<lambda>r. id_of (snd r)) (expired_rows now tbl)))"
    by (rule distinct_take)
  then show ?thesis by (simp add: take_map comp_def)
qed

lemma grab_ok:
  assumes inv: "task_inv tbl" and c: "0 < count"
  shows "grab count now None tbl =
           (Inr (map (grabbed (now + taskTimeoutInSeconds * 1000)) (map snd (take count (expired_rows now tbl)))),
            snd (regrab None 1 (now + taskTimeoutInSeconds * 1000) (map snd (take count (expired_rows now tbl))) tbl),
            [])"
proof -
  let ?nt = "now + taskTimeoutInSeconds * 1000"
  let ?found = "map snd (take count (expired_rows now tbl))"
  have ids: "\<forall>it \<in> set ?found. \<exists>k. it ''taskid'' = Some (S k)"
    using found_rows[OF inv] by blast
  have f: "fst (regrab None 1 ?nt ?found tbl) = None" using ids by (rule regrab_None)
  have "\<forall>it \<in> set ?found. returned_task ?nt it = Inr (grabbed ?nt it)"
    using found_rows[OF inv] returned_task_row(1) by blast
  then have col: "collect (map (returned_task ?nt) ?found) = Inr (map (grabbed ?nt) ?found)"
    by (rule collect_map)
  obtain e tbl' where r: "regrab None 1 ?nt ?found tbl = (e, tbl')" by (cases "regrab None 1 ?nt ?found tbl")
  with f have e: "e = None" by simp
  show ?thesis
    using c col r e by (simp add: grab_def Let_def)
qed

lemma timeout_key_row:
  "timeout_key it = Some n \<Longrightarrow> it ''timeout'' = Some (N n)"
  by (auto simp: timeout_key_def split: option.splits attr.splits if_splits)

lemma row_facts:
  assumes inv: "task_inv tbl" and r: "r \<in> set (expired_rows now tbl)"
  shows "map_of tbl (id_of (snd r)) = Some (snd r)" "lease_of tbl (id_of (snd r)) = Some (fst r)"
    "fst r \<le> now" "task_row (id_of (snd r), snd r)" "due tbl (id_of (snd r)) = fst r"
proof -
  from expired_rows_from[OF r] obtain k where le: "fst r \<le> now" and k: "(k, snd r) \<in> set tbl"
    and t: "timeout_key (snd r) = Some (fst r)" by blast
  have row: "task_row (k, snd r)" using inv k by (auto simp: task_inv_def list_all_iff)
  then have id: "id_of (snd r) = k" by (rule returned_task_row(5))
  have m: "map_of tbl k = Some (snd r)" using inv k by (simp add: task_inv_def)
  show "map_of tbl (id_of (snd r)) = Some (snd r)" using m id by simp
  show l: "lease_of tbl (id_of (snd r)) = Some (fst r)"
    using m id timeout_key_row[OF t] by (simp add: lease_of_def)
  show "fst r \<le> now" by (rule le)
  show "task_row (id_of (snd r), snd r)" using row id by simp
  show "due tbl (id_of (snd r)) = fst r" using l by (simp add: due_def)
qed

lemma expired_rows_sorted: "sorted (map fst (expired_rows now tbl))"
  by (simp add: expired_rows_def sorted_filter)

lemma expired_rows_complete:
  assumes inv: "task_inv tbl" and l: "lease_of tbl k = Some n" and le: "n \<le> now"
  shows "\<exists>it. (n, it) \<in> set (expired_rows now tbl) \<and> id_of it = k"
proof -
  from l obtain it where m: "map_of tbl k = Some it" and t: "it ''timeout'' = Some (N n)"
    by (auto simp: lease_of_def split: option.splits attr.splits)
  then have mem: "(k, it) \<in> set tbl" by (auto dest: map_of_SomeD)
  then have row: "task_row (k, it)" using inv by (auto simp: task_inv_def list_all_iff)
  then have tk: "timeout_key it = Some n" using t by (simp add: timeout_key_def task_row_def)
  have "(n, it) \<in> set (List.map_filter (\<lambda>row. map_option (\<lambda>n. (n, snd row)) (timeout_key (snd row))) tbl)"
    using mem tk by (induction tbl) (auto split: option.splits)
  then have "(n, it) \<in> set (expired_rows now tbl)" using le by (simp add: expired_rows_def)
  then show ?thesis using returned_task_row(5)[OF row] by blast
qed

lemma find_distinct:
  "distinct (map f xs) \<Longrightarrow> x \<in> set xs \<Longrightarrow> find (\<lambda>y. f y = f x) xs = Some x"
  by (induction xs) (auto simp: image_iff)

lemma find_absent: "k \<notin> f ` set xs \<Longrightarrow> find (\<lambda>y. f y = k) xs = None"
  by (auto simp: find_None_iff)

lemma leases_of_grab:
  assumes inv: "task_inv tbl"
  shows "\<exists>tasks tbl' log. grab count now None tbl = (Inr tasks, tbl', log) \<and>
      (0 < count \<longrightarrow> log = []) \<and>
      length tasks \<le> count \<and>
      distinct (map task_id tasks) \<and>
      sorted (map (\<lambda>t. due tbl (task_id t)) tasks) \<and>
      (\<forall>t \<in> set tasks. (\<exists>n. lease_of tbl (task_id t) = Some n \<and> n \<le> now) \<and>
                     timeout t = now + 60 * 1000 \<and>
                     lease_of tbl' (task_id t) = Some (now + 60 * 1000) \<and>
                     kept_of tbl' (task_id t) = kept_of tbl (task_id t)) \<and>
      (\<forall>k n. lease_of tbl k = Some n \<and> n \<le> now \<and> k \<notin> task_id ` set tasks \<longrightarrow>
               length tasks = count \<and> (\<forall>t \<in> set tasks. due tbl (task_id t) \<le> n)) \<and>
      (\<forall>k. k \<notin> task_id ` set tasks \<longrightarrow> map_of tbl' k = map_of tbl k)"
proof (cases "count = 0")
  case True
  then have "grab count now None tbl = (Inr [], tbl, [ValidationError])"
    by (simp add: grab_def Let_def)
  then show ?thesis using True by simp
next
  case False
  then have c: "0 < count" by simp
  let ?nt = "now + taskTimeoutInSeconds * 1000"
  let ?all = "expired_rows now tbl"
  let ?rows = "take count ?all"
  let ?found = "map snd ?rows"
  let ?tasks = "map (grabbed ?nt) ?found"
  let ?tbl' = "snd (regrab None 1 ?nt ?found tbl)"
  have g: "grab count now None tbl = (Inr ?tasks, ?tbl', [])" using inv c by (rule grab_ok)
  have nt: "?nt = now + 60 * 1000" by (simp add: taskTimeoutInSeconds_def)
  have sub: "r \<in> set ?all" if "r \<in> set ?rows" for r using that by (rule in_set_takeD)
  have tid: "task_id (grabbed ?nt (snd r)) = id_of (snd r)" if "r \<in> set ?rows" for r
    using row_facts(4)[OF inv sub[OF that]] by (simp add: returned_task_row(2))
  have "map task_id ?tasks = map (\<lambda>r. task_id (grabbed ?nt (snd r))) ?rows"
    by (simp add: comp_def)
  also have "\<dots> = map (\<lambda>r. id_of (snd r)) ?rows"
    by (rule map_cong[OF refl]) (simp add: tid)
  also have "\<dots> = map id_of ?found" by (simp add: comp_def)
  finally have ids: "map task_id ?tasks = map id_of ?found" .
  have dist: "distinct (map id_of ?found)" using inv by (rule expired_ids_distinct)
  have keys: "\<forall>it \<in> set ?found. \<exists>k. it ''taskid'' = Some (S k)"
    using found_rows[OF inv] by blast
  note look = regrab_map_of[OF dist keys, of 1 ?nt tbl]
  have idset: "task_id ` set ?tasks = id_of ` set ?found"
    using ids by (metis set_map)
  have p1: "length ?tasks \<le> count" by simp
  have p2: "distinct (map task_id ?tasks)" unfolding ids by (rule dist)
  have "map (\<lambda>t. due tbl (task_id t)) ?tasks
          = map (\<lambda>r. due tbl (task_id (grabbed ?nt (snd r)))) ?rows"
    by (simp add: comp_def)
  also have "\<dots> = map fst ?rows"
    by (rule map_cong[OF refl]) (simp add: tid row_facts(5)[OF inv sub])
  finally have duemap: "map (\<lambda>t. due tbl (task_id t)) ?tasks = map fst ?rows" .
  have "sorted (map fst ?rows)"
    using expired_rows_sorted[of now tbl] by (simp add: take_map[symmetric] sorted_wrt_take)
  then have p3: "sorted (map (\<lambda>t. due tbl (task_id t)) ?tasks)" unfolding duemap .
  have p4: "(\<exists>n. lease_of tbl (task_id t) = Some n \<and> n \<le> now) \<and>
                     timeout t = now + 60 * 1000 \<and>
                     lease_of ?tbl' (task_id t) = Some (now + 60 * 1000) \<and>
                     kept_of ?tbl' (task_id t) = kept_of tbl (task_id t)" if "t \<in> set ?tasks" for t
  proof -
    from that obtain r where r: "r \<in> set ?rows" and t: "t = grabbed ?nt (snd r)" by auto
    have k: "task_id t = id_of (snd r)" using tid[OF r] t by simp
    have f: "find (\<lambda>it. id_of it = id_of (snd r)) ?found = Some (snd r)"
      using dist r by (intro find_distinct) auto
    have new: "map_of ?tbl' (id_of (snd r)) = Some (regrabbed ?nt (snd r))"
      using look[of "id_of (snd r)"] f by simp
    have old: "map_of tbl (id_of (snd r)) = Some (snd r)" by (rule row_facts(1)[OF inv sub[OF r]])
    have "\<exists>n. lease_of tbl (task_id t) = Some n \<and> n \<le> now"
      using row_facts(2,3)[OF inv sub[OF r]] k by simp
    moreover have "timeout t = now + 60 * 1000"
      using t by (simp add: grabbed_def taskTimeoutInSeconds_def)
    moreover have "lease_of ?tbl' (id_of (snd r)) = Some ?nt"
      using new by (simp add: lease_of_def regrabbed_def)
    then have "lease_of ?tbl' (task_id t) = Some (now + 60 * 1000)"
      using k by (simp add: taskTimeoutInSeconds_def)
    moreover have "kept_of ?tbl' (task_id t) = kept_of tbl (task_id t)"
      using new old k by (simp add: kept_of_def regrabbed_def)
    ultimately show ?thesis by blast
  qed
  have p5: "length ?tasks = count \<and> (\<forall>t \<in> set ?tasks. due tbl (task_id t) \<le> n)"
    if h: "lease_of tbl k = Some n \<and> n \<le> now \<and> k \<notin> task_id ` set ?tasks" for k n
  proof -
    from expired_rows_complete[OF inv, of k n now] h obtain it where
      mem: "(n, it) \<in> set ?all" and id: "id_of it = k" by blast
    have "(n, it) \<notin> set ?rows"
    proof
      assume "(n, it) \<in> set ?rows"
      then have "it \<in> set ?found" by force
      then have "k \<in> id_of ` set ?found" using id by blast
      then show False using h idset by simp
    qed
    then have indrop: "(n, it) \<in> set (drop count ?all)"
      using mem by (metis append_take_drop_id set_append Un_iff)
    then have "count < length ?all" by (cases "count < length ?all") auto
    then have len: "length ?tasks = count" by simp
    have "sorted (map fst ?rows @ map fst (drop count ?all))"
      using expired_rows_sorted[of now tbl] by (simp only: map_append[symmetric] append_take_drop_id)
    then have "\<forall>x \<in> set (map fst ?rows). \<forall>y \<in> set (map fst (drop count ?all)). x \<le> y"
      unfolding sorted_append by blast
    then have "\<forall>x \<in> set ?rows. \<forall>y \<in> set (drop count ?all). fst x \<le> fst y"
      by simp
    then have le: "\<forall>x \<in> set ?rows. fst x \<le> n" using indrop by force
    have "due tbl (task_id t) \<le> n" if "t \<in> set ?tasks" for t
    proof -
      from that obtain r where r: "r \<in> set ?rows" and t: "t = grabbed ?nt (snd r)" by auto
      then show ?thesis using le tid[OF r] row_facts(5)[OF inv sub[OF r]] by simp
    qed
    with len show ?thesis by blast
  qed
  have p6: "map_of ?tbl' k = map_of tbl k" if "k \<notin> task_id ` set ?tasks" for k
  proof -
    have "find (\<lambda>it. id_of it = k) ?found = None"
      using that idset by (intro find_absent) simp
    then show ?thesis using look[of k] by simp
  qed
  show ?thesis
    apply (rule exI[where x = ?tasks], rule exI[where x = ?tbl'], rule exI[where x = "[]"])
    using g p1 p2 p3 p4 p5 p6 by blast
qed

text \<open>
  C9. On any table that the operations of the store have built, \<^verbatim>\<open>grab(count)\<close> with
  an answering backend returns at most \<open>count\<close> tasks, each once; each had a stored timeout
  at or before \<open>now\<close>, and they come in ascending order of that timeout; an expired task is
  left out only when \<open>count\<close> tasks were taken, all of them due no later than it. Each
  returned task carries the timeout \<open>now + 60 * 1000\<close>, and so does its row afterwards,
  whose payload and retry count attributes are the ones it had; the other rows are as
  they were.
\<close>

theorem grab_leases:
  "\<exists>tasks tbl' log. grab count now None (run_tasks ops []) = (Inr tasks, tbl', log) \<and>
      (0 < count \<longrightarrow> log = []) \<and>
      length tasks \<le> count \<and>
      distinct (map task_id tasks) \<and>
      sorted (map (\<lambda>t. due (run_tasks ops []) (task_id t)) tasks) \<and>
      (\<forall>t \<in> set tasks. (\<exists>n. lease_of (run_tasks ops []) (task_id t) = Some n \<and> n \<le> now) \<and>
                     timeout t = now + 60 * 1000 \<and>
                     lease_of tbl' (task_id t) = Some (now + 60 * 1000) \<and>
                     kept_of tbl' (task_id t) = kept_of (run_tasks ops []) (task_id t)) \<and>
      (\<forall>k n. lease_of (run_tasks ops []) k = Some n \<and> n \<le> now \<and> k \<notin> task_id ` set tasks \<longrightarrow>
               length tasks = count \<and> (\<forall>t \<in> set tasks. due (run_tasks ops []) (task_id t) \<le> n)) \<and>
      (\<forall>k. k \<notin> task_id ` set tasks \<longrightarrow> map_of tbl' k = map_of (run_tasks ops []) k)"
  using task_inv_run by (rule leases_of_grab)

theorem grab_leases_witness:
  "map task_id (case fst (grab 2 2500 None (run_tasks three_tasks [])) of Inr ts \<Rightarrow> ts | Inl e \<Rightarrow> [])
     = [''t1'', ''t3''] \<and>
   map timeout (case fst (grab 2 2500 None (run_tasks three_tasks [])) of Inr ts \<Rightarrow> ts | Inl e \<Rightarrow> [])
     = [62500, 62500] \<and>
   lease_of (run_tasks three_tasks []) ''t2'' = Some 3000"
proof -
  let ?G = "grab 2 2500 None (run_tasks three_tasks [])"
  have ids: "map task_id (case fst ?G of Inr ts \<Rightarrow> ts | Inl e \<Rightarrow> []) = [''t1'', ''t3'']"
    by code_simp
  have l2: "lease_of (run_tasks three_tasks []) ''t2'' = Some 3000" by code_simp
  from grab_leases[of 2 2500 three_tasks] obtain tasks tbl' log where
    g: "?G = (Inr tasks, tbl', log)" and t: "\<forall>t \<in> set tasks. timeout t = 2500 + 60 * 1000"
    by blast
  have "map timeout tasks = map (\<lambda>_. 62500) tasks"
    by (rule map_cong[OF refl]) (use t in simp)
  moreover have "length tasks = 2" using ids g by (metis fst_conv sum.simps(6) length_map length_Cons list.size(3) numeral_2_eq_2)
  ultimately have "map timeout tasks = [62500, 62500]"
    by (simp add: map_replicate_const numeral_2_eq_2)
  then show ?thesis using ids l2 g by simp
qed


lemma read_retry:
  assumes inv: "task_inv tbl" and r: "fst (read taskId f tbl) = Inr (Some r)"
  shows "retryCount r = 0"
proof -
  from r obtain it where m: "map_of tbl taskId = Some it"
    by (auto simp: read_def split: if_splits option.splits)
  then have "task_row (taskId, it)" using inv by (auto simp: task_inv_def list_all_iff dest: map_of_SomeD)
  then obtain s where "it ''retryCount'' = Some (S s)" by (auto simp: task_row_def)
  then show ?thesis using r m
    by (auto simp: read_def parse_N_def split: if_splits option.splits)
qed

lemma in_set_mapD: "y \<in> set (map f xs) \<Longrightarrow> \<exists>x \<in> set xs. y = f x"
  by auto

lemma grab_retry:
  assumes inv: "task_inv tbl" and g: "fst (grab count now f tbl) = Inr ts" and t: "t \<in> set ts"
  shows "retryCount t = 0"
proof -
  let ?nt = "now + taskTimeoutInSeconds * 1000"
  let ?found = "map snd (take count (expired_rows now tbl))"
  have "\<forall>it \<in> set ?found. returned_task ?nt it = Inr (grabbed ?nt it)"
    using found_rows[OF inv] returned_task_row(1) by blast
  then have col: "collect (map (returned_task ?nt) ?found) = Inr (map (grabbed ?nt) ?found)"
    by (rule collect_map)
  have "ts = [] \<or> ts = map (grabbed ?nt) ?found"
    using g col by (auto simp: grab_def Let_def split: if_splits prod.splits option.splits)
  then have "t \<in> set (map (grabbed ?nt) ?found)" using t by auto
  from in_set_mapD[OF this] obtain it where "it \<in> set ?found" "t = grabbed ?nt it" by blast
  then show ?thesis using found_rows[OF inv, of it count now] returned_task_row(3) by blast
qed

text \<open>
  C10. \<^verbatim>\<open>register\<close> writes the retry count as the string attribute
  \<^verbatim>\<open>{ S: '0' }\<close>, and \<^verbatim>\<open>grab\<close> and \<^verbatim>\<open>extend\<close> copy the attribute as it is.
  \<^verbatim>\<open>read\<close> and \<^verbatim>\<open>grab\<close> look at the number field \<^verbatim>\<open>.N\<close> only and put
  \<^verbatim>\<open>'0'\<close> in its place when it is missing. So on any table that the operations of the
  store have built, every task that \<^verbatim>\<open>read\<close> or \<^verbatim>\<open>grab\<close> reports has the retry
  count 0, and a task is read back that way right after it was registered.
\<close>

theorem retry_count_zero:
  "(\<forall>r. fst (read taskId f (run_tasks ops [])) = Inr (Some r) \<longrightarrow> retryCount r = 0) \<and>
   (\<forall>ts t. fst (grab count now g (run_tasks ops [])) = Inr ts \<and> t \<in> set ts \<longrightarrow> retryCount t = 0) \<and>
   map_of (do_task_op (Register task taskId secs t0 None) (run_tasks ops [])) taskId
     = Some [''taskid'' \<mapsto> S taskId, ''tenantid'' \<mapsto> S ''default'',
             ''timeout'' \<mapsto> N (t0 + secs * 1000), ''task'' \<mapsto> S task, ''retryCount'' \<mapsto> S ''0''] \<and>
   fst (read taskId None (do_task_op (Register task taskId secs t0 None) (run_tasks ops [])))
     = Inr (Some \<lparr>task_id = taskId, task_payload = task, retryCount = 0, timeout = t0 + secs * 1000\<rparr>)"
proof (intro conjI allI impI)
  fix r assume "fst (read taskId f (run_tasks ops [])) = Inr (Some r)"
  with task_inv_run show "retryCount r = 0" by (rule read_retry)
next
  fix ts t assume "fst (grab count now g (run_tasks ops [])) = Inr ts \<and> t \<in> set ts"
  then show "retryCount t = 0" using grab_retry[OF task_inv_run] by blast
next
  have z: "number_toString 0 = ''0''" by (simp add: number_toString_def digit_def)
  show "map_of (do_task_op (Register task taskId secs t0 None) (run_tasks ops [])) taskId
     = Some [''taskid'' \<mapsto> S taskId, ''tenantid'' \<mapsto> S ''default'',
             ''timeout'' \<mapsto> N (t0 + secs * 1000), ''task'' \<mapsto> S task, ''retryCount'' \<mapsto> S ''0'']"
    by (simp add: register_def update_conv' z)
  then show "fst (read taskId None (do_task_op (Register task taskId secs t0 None) (run_tasks ops [])))
     = Inr (Some \<lparr>task_id = taskId, task_payload = task, retryCount = 0, timeout = t0 + secs * 1000\<rparr>)"
    by (simp add: read_def js_S_def parse_N_def)
qed

theorem retry_count_zero_witness:
  "map_sum id (map_option retryCount) (fst (read ''t1'' None (run_tasks three_tasks []))) = Inr (Some 0) \<and>
   map retryCount (case fst (grab 2 2500 None (run_tasks three_tasks [])) of Inr ts \<Rightarrow> ts | Inl e \<Rightarrow> []) = [0, 0] \<and>
   map_of (run_tasks three_tasks []) ''t1''
     = Some [''taskid'' \<mapsto> S ''t1'', ''tenantid'' \<mapsto> S ''default'',
             ''timeout'' \<mapsto> N 1000, ''task'' \<mapsto> S ''[1]'', ''retryCount'' \<mapsto> S ''0'']"
proof -
  let ?R = "fst (read ''t1'' None (run_tasks three_tasks []))"
  let ?G = "fst (grab 2 2500 None (run_tasks three_tasks []))"
  note z = retry_count_zero[of "''t1''" None three_tasks 2 2500 None]
  have "(case ?R of Inr (Some r) \<Rightarrow> True | _ \<Rightarrow> False)" by code_simp
  then obtain r0 where r0: "?R = Inr (Some r0)" by (auto split: sum.splits option.splits)
  then have "retryCount r0 = 0" using z by blast
  then have a: "map_sum id (map_option retryCount) ?R = Inr (Some 0)" using r0 by simp
  have "(case ?G of Inr ts \<Rightarrow> length ts = 2 | _ \<Rightarrow> False)" by code_simp
  then obtain ts where ts: "?G = Inr ts" "length ts = 2" by (auto split: sum.splits)
  then have "\<forall>t \<in> set ts. retryCount t = 0" using z by blast
  then have "map retryCount ts = map (\<lambda>_. 0) ts" by (intro map_cong[OF refl]) simp
  then have b: "map retryCount ts = [0, 0]" using ts(2) by (simp add: map_replicate_const numeral_2_eq_2)
  have c: "map_of (run_tasks three_tasks []) ''t1''
     = Some [''taskid'' \<mapsto> S ''t1'', ''tenantid'' \<mapsto> S ''default'',
             ''timeout'' \<mapsto> N 1000, ''task'' \<mapsto> S ''[1]'', ''retryCount'' \<mapsto> S ''0'']"
    by (simp add: three_tasks_def run_tasks_def register_def update_conv' number_toString_def digit_def)
  show ?thesis using a b c ts(1) by simp
qed

end
